theory Spec2Isabelle
  imports Main "HOL-Library.Sublist"
begin

section \<open>Python string operations used by the link builder\<close>

text \<open>
  Strings are character lists. The source works on Python \<open>str\<close>; the model covers the
  ASCII range: \<open>lower()\<close> folds \<open>A\<close>..\<open>Z\<close>, and the regular expression class \<open>\w\<close> is
  letters, digits and the underscore.
\<close>

definition is_upper :: "char \<Rightarrow> bool" where
  "is_upper c = (65 \<le> (of_char c :: nat) \<and> (of_char c :: nat) \<le> 90)"

definition is_lower :: "char \<Rightarrow> bool" where
  "is_lower c = (97 \<le> (of_char c :: nat) \<and> (of_char c :: nat) \<le> 122)"

definition is_digit :: "char \<Rightarrow> bool" where
  "is_digit c = (48 \<le> (of_char c :: nat) \<and> (of_char c :: nat) \<le> 57)"

definition is_alnum :: "char \<Rightarrow> bool" where
  "is_alnum c = (is_upper c \<or> is_lower c \<or> is_digit c)"

text \<open>The class \<open>\w\<close> of the \<open>re\<close> module, on ASCII.\<close>

definition is_word :: "char \<Rightarrow> bool" where
  "is_word c = (is_alnum c \<or> c = CHR ''_'')"

definition is_space :: "char \<Rightarrow> bool" where
  "is_space c = (c \<in> set [CHR '' '', CHR 0x0A, CHR 0x09, CHR 0x0C, CHR 0x0D])"

definition lower_char :: "char \<Rightarrow> char" where
  "lower_char c = (if is_upper c then char_of ((of_char c :: nat) + 32) else c)"

text \<open>\<open>s.lower()\<close>\<close>

definition lower :: "string \<Rightarrow> string" where
  "lower s = map lower_char s"

text \<open>\<open>s.find(sub)\<close>: the least index at which \<open>sub\<close> occurs in \<open>s\<close>, \<open>None\<close> for \<open>-1\<close>.\<close>

fun str_find :: "string \<Rightarrow> string \<Rightarrow> nat option" where
  "str_find sub [] = (if sub = [] then Some 0 else None)"
| "str_find sub (c # cs) =
     (if prefix sub (c # cs) then Some 0
      else map_option Suc (str_find sub cs))"

text \<open>\<open>sub in s\<close>\<close>

definition str_in :: "string \<Rightarrow> string \<Rightarrow> bool" where
  "str_in sub s = (str_find sub s \<noteq> None)"

text \<open>\<open>s.count(sub)\<close> for a non-empty \<open>sub\<close>: the number of non-overlapping occurrences,
  counted from the left. The argument \<open>skip\<close> is the number of characters still covered by
  the occurrence counted last.\<close>

fun count_from :: "nat \<Rightarrow> string \<Rightarrow> string \<Rightarrow> nat" where
  "count_from skip sub [] = 0"
| "count_from skip sub (c # cs) =
     (if skip = 0 \<and> prefix sub (c # cs)
      then Suc (count_from (length sub - 1) sub cs)
      else count_from (skip - 1) sub cs)"

definition str_count :: "string \<Rightarrow> string \<Rightarrow> nat" where
  "str_count sub s = count_from 0 sub s"

text \<open>\<open>s.replace(old, new, 1)\<close>: the first occurrence of \<open>old\<close> is replaced; a string
  without an occurrence is returned as it is.\<close>

definition str_replace1 :: "string \<Rightarrow> string \<Rightarrow> string \<Rightarrow> string" where
  "str_replace1 s old new =
     (case str_find old s of
        None \<Rightarrow> s
      | Some i \<Rightarrow> take i s @ new @ drop (i + length old) s)"

section \<open>The regular expression of \<open>add_link_to_word\<close>\<close>

text \<open>
  \<^verbatim>\<open>pattern = re.compile(r'\b(' + re.escape(word) + r')\b', re.IGNORECASE)\<close>

  \<open>\b\<close> holds at position \<open>i\<close> of \<open>s\<close> when exactly one of the characters before and
  after the position is a word character; beyond either end of the string there is none.
\<close>

definition word_at :: "string \<Rightarrow> nat \<Rightarrow> bool" where
  "word_at s i = (i < length s \<and> is_word (s ! i))"

definition word_boundary :: "string \<Rightarrow> nat \<Rightarrow> bool" where
  "word_boundary s i = ((0 < i \<and> word_at s (i - 1)) \<noteq> word_at s i)"

text \<open>The pattern matches at position \<open>i\<close>: the escaped word is a literal, compared
  without regard to case, between two word boundaries.\<close>

definition match_at :: "string \<Rightarrow> string \<Rightarrow> nat \<Rightarrow> bool" where
  "match_at word s i =
     (i + length word \<le> length s
      \<and> lower (take (length word) (drop i s)) = lower word
      \<and> word_boundary s i
      \<and> word_boundary s (i + length word))"

text \<open>\<open>pattern.search(s)\<close>: the start of the leftmost match.\<close>

definition pattern_search :: "string \<Rightarrow> string \<Rightarrow> nat option" where
  "pattern_search word s = List.find (match_at word s) [0 ..< Suc (length s)]"

section \<open>The parse tree of BeautifulSoup\<close>

text \<open>
  \<^verbatim>\<open>soup = BeautifulSoup(html, 'html.parser')\<close>

  The library is not part of the repository. It is modelled for the fragment of HTML that
  product descriptions are made of: text, start tags with attributes (quoted or bare
  values), self-closing tags and end tags. Comments, declarations, character references
  and the raw content of \<open>script\<close> and \<open>style\<close> are outside the fragment. The theorems
  of the claims that are stated for every document do not look into the reader: they hold
  for whatever tree it returns for a document that is not empty. The examples and the
  lemmas on a heading with one paragraph are about the reader as it is written here.
\<close>

type_synonym attrs = "(string \<times> string) list"

datatype node =
    NavigableString string
  | Tag string attrs "node list"

datatype token =
    Data string
  | StartTag string attrs bool
  | EndTag string

text \<open>A Python \<open>dict\<close> assignment \<open>d[k] = v\<close> on the attribute dictionary: an existing
  key keeps its place and takes the new value.\<close>

fun dict_set :: "attrs \<Rightarrow> string \<Rightarrow> string \<Rightarrow> attrs" where
  "dict_set [] k v = [(k, v)]"
| "dict_set ((k', v') # kvs) k v =
     (if k' = k then (k, v) # kvs else (k', v') # dict_set kvs k v)"

definition is_alpha :: "char \<Rightarrow> bool" where
  "is_alpha c = (is_upper c \<or> is_lower c)"

text \<open>Characters of a tag name after its first letter, and of an attribute name.\<close>

definition tag_char :: "char \<Rightarrow> bool" where
  "tag_char c = (\<not> is_space c \<and> c \<noteq> CHR ''/'' \<and> c \<noteq> CHR ''>'')"

definition attr_char :: "char \<Rightarrow> bool" where
  "attr_char c = (tag_char c \<and> c \<noteq> CHR ''='')"

text \<open>An attribute value: enclosed in double or single quotes, or bare up to the next
  space or \<open>>\<close>. \<open>None\<close> when the closing quote is missing.\<close>

definition parse_value :: "string \<Rightarrow> (string \<times> string) option" where
  "parse_value s =
     (case s of
        [] \<Rightarrow> None
      | q # r \<Rightarrow>
          if q = CHR 0x22 \<or> q = CHR 0x27 then
            (if q \<in> set r
             then Some (takeWhile (\<lambda>c. c \<noteq> q) r, tl (dropWhile (\<lambda>c. c \<noteq> q) r))
             else None)
          else Some (takeWhile (\<lambda>c. \<not> is_space c \<and> c \<noteq> CHR ''>'') s,
                     dropWhile (\<lambda>c. \<not> is_space c \<and> c \<noteq> CHR ''>'') s))"

lemma parse_value_length:
  assumes "parse_value s = Some (v, r)"
  shows "length r \<le> length s"
proof (cases s)
  case Nil
  with assms show ?thesis by (simp add: parse_value_def)
next
  case (Cons q t)
  have "length (tl (dropWhile (\<lambda>c. c \<noteq> q) t)) \<le> length t"
    using length_dropWhile_le [of "\<lambda>c. c \<noteq> q" t] by simp
  moreover have "length (dropWhile (\<lambda>c. \<not> is_space c \<and> c \<noteq> CHR ''>'') s) \<le> length s"
    by (rule length_dropWhile_le)
  ultimately show ?thesis
    using assms Cons by (auto simp: parse_value_def split: if_splits)
qed

text \<open>The attributes of a start tag, up to and including its closing \<open>>\<close>. The result is
  the attribute dictionary, whether the tag ended in \<open>/>\<close>, and the input after the tag;
  \<open>None\<close> when the tag is not closed.\<close>

function parse_attrs :: "attrs \<Rightarrow> string \<Rightarrow> (attrs \<times> bool \<times> string) option" where
  "parse_attrs acc [] = None"
| "parse_attrs acc (c # cs) =
     (if is_space c then parse_attrs acc cs
      else if c = CHR ''>'' then Some (acc, False, cs)
      else if c = CHR ''/'' then
        (case cs of
           [] \<Rightarrow> None
         | d # ds \<Rightarrow> if d = CHR ''>'' then Some (acc, True, ds) else parse_attrs acc cs)
      else
        (case dropWhile is_space (dropWhile attr_char cs) of
           [] \<Rightarrow> None
         | e # r \<Rightarrow>
             if e = CHR ''='' then
               (case parse_value (dropWhile is_space (dropWhile (\<lambda>x. x = CHR ''='') r)) of
                  None \<Rightarrow> None
                | Some (v, r') \<Rightarrow>
                    parse_attrs (dict_set acc (lower (c # takeWhile attr_char cs)) v) r')
             else parse_attrs (dict_set acc (lower (c # takeWhile attr_char cs)) []) (e # r)))"
  by pat_completeness auto
termination
proof (relation "measure (\<lambda>(acc, s). length s)", goal_cases)
  case 1
  show ?case by simp
next
  case (2 acc c cs)
  show ?case by simp
next
  case (3 acc c cs d ds)
  show ?case by simp
next
  case (4 acc c cs e r x v r')
  have "parse_value (dropWhile is_space (dropWhile (\<lambda>x. x = CHR ''='') r)) = Some (v, r')"
    using 4 by simp
  then have "length r' \<le> length (dropWhile is_space (dropWhile (\<lambda>x. x = CHR ''='') r))"
    by (rule parse_value_length)
  also have "\<dots> \<le> length r"
    by (rule le_trans [OF length_dropWhile_le length_dropWhile_le])
  also have "\<dots> < length (dropWhile is_space (dropWhile attr_char cs))"
    using 4 by simp
  also have "\<dots> \<le> length cs"
    by (rule le_trans [OF length_dropWhile_le length_dropWhile_le])
  finally show ?case by simp
next
  case (5 acc c cs e r)
  have "length (e # r) \<le> length cs"
    using 5 le_trans [OF length_dropWhile_le length_dropWhile_le, of is_space attr_char cs]
    by simp
  then show ?case by simp
qed

lemma parse_attrs_length:
  "parse_attrs acc s = Some (a, b, r) \<Longrightarrow> length r < length s"
proof (induction acc s arbitrary: a b r rule: parse_attrs.induct)
  case (1 acc)
  then show ?case by simp
next
  case (2 acc c cs)
  have dd: "length (dropWhile is_space (dropWhile attr_char cs)) \<le> length cs"
    by (rule le_trans [OF length_dropWhile_le length_dropWhile_le])
  show ?case
  proof (cases "is_space c")
    case True
    with 2 show ?thesis by fastforce
  next
    case sp: False
    show ?thesis
    proof (cases "c = CHR ''>''")
      case True
      with 2 sp show ?thesis by simp
    next
      case gt: False
      show ?thesis
      proof (cases "c = CHR ''/''")
        case True
        with 2 sp gt show ?thesis
          by (cases cs) (fastforce split: if_splits)+
      next
        case sl: False
        show ?thesis
        proof (cases "dropWhile is_space (dropWhile attr_char cs)")
          case Nil
          with 2 sp gt sl show ?thesis by simp
        next
          case (Cons e r0)
          show ?thesis
          proof (cases "e = CHR ''=''")
            case True
            from 2(5) sp gt sl Cons True obtain v r' where
              pv: "parse_value (dropWhile is_space (dropWhile (\<lambda>x. x = CHR ''='') r0)) = Some (v, r')"
              and rec: "parse_attrs (dict_set acc (lower (c # takeWhile attr_char cs)) v) r' = Some (a, b, r)"
              by (auto split: option.splits)
            have "length r < length r'"
              using "2.IH"(3) [OF sp gt sl Cons True pv refl rec] .
            also have "\<dots> \<le> length (dropWhile is_space (dropWhile (\<lambda>x. x = CHR ''='') r0))"
              using pv by (rule parse_value_length)
            also have "\<dots> \<le> length r0"
              by (rule le_trans [OF length_dropWhile_le length_dropWhile_le])
            also have "\<dots> \<le> length cs"
              using dd Cons by simp
            finally show ?thesis by simp
          next
            case False
            from 2(5) sp gt sl Cons False have
              rec: "parse_attrs (dict_set acc (lower (c # takeWhile attr_char cs)) []) (e # r0) = Some (a, b, r)"
              by simp
            have "length r < length (e # r0)"
              using "2.IH"(4) [OF sp gt sl Cons False rec] .
            also have "\<dots> \<le> length cs"
              using dd Cons by simp
            finally show ?thesis by simp
          qed
        qed
      qed
    qed
  qed
qed

text \<open>
  The tokens of a document. Text runs up to the next \<open><\<close>. A \<open><\<close> followed by a letter
  opens a start tag, \<open></\<close> followed by a letter an end tag; any other \<open><\<close>, and a tag that
  is never closed, is text.
\<close>

function tokenize :: "string \<Rightarrow> token list" where
  "tokenize [] = []"
| "tokenize (c # cs) =
     (if c \<noteq> CHR ''<'' then
        Data (c # takeWhile (\<lambda>x. x \<noteq> CHR ''<'') cs)
          # tokenize (dropWhile (\<lambda>x. x \<noteq> CHR ''<'') cs)
      else
        (case cs of
           [] \<Rightarrow> [Data [c]]
         | d # ds \<Rightarrow>
             if is_alpha d then
               (case parse_attrs [] (dropWhile tag_char cs) of
                  None \<Rightarrow> [Data (c # cs)]
                | Some (attrs, closed, rest) \<Rightarrow>
                    StartTag (lower (takeWhile tag_char cs)) attrs closed # tokenize rest)
             else if d = CHR ''/'' \<and> ds \<noteq> [] \<and> is_alpha (hd ds) then
               (if CHR ''>'' \<in> set ds
                then EndTag (lower (takeWhile tag_char ds))
                       # tokenize (tl (dropWhile (\<lambda>x. x \<noteq> CHR ''>'') ds))
                else [Data (c # cs)])
             else Data [c] # tokenize cs))"
  by pat_completeness auto
termination
proof (relation "measure length", goal_cases)
  case 1
  show ?case by simp
next
  case (2 c cs)
  show ?case by (simp add: length_dropWhile_le le_imp_less_Suc)
next
  case (3 c cs d ds x attrs y closed rest)
  then have "parse_attrs [] (dropWhile tag_char cs) = Some (attrs, closed, rest)"
    by simp
  then have "length rest < length (dropWhile tag_char cs)"
    by (rule parse_attrs_length)
  also have "\<dots> \<le> length cs"
    by (rule length_dropWhile_le)
  finally show ?case by simp
next
  case (4 c cs d ds)
  have "length (tl (dropWhile (\<lambda>x. x \<noteq> CHR ''>'') ds)) \<le> length ds"
    using length_dropWhile_le [of "\<lambda>x. x \<noteq> CHR ''>''" ds] by simp
  with 4 show ?case by simp
next
  case (5 c cs d ds)
  show ?case by simp
qed

text \<open>
  The tree builder keeps the stack of open tags, innermost first, each with the children
  read so far in reverse order; the last entry is the document itself.
\<close>

type_synonym frame = "string \<times> attrs \<times> node list"

definition void_tags :: "string list" where
  "void_tags = [''area'', ''base'', ''br'', ''col'', ''embed'', ''hr'', ''img'', ''input'',
     ''keygen'', ''link'', ''menuitem'', ''meta'', ''param'', ''source'', ''track'', ''wbr'',
     ''basefont'', ''bgsound'', ''command'', ''frame'', ''image'', ''isindex'', ''nextid'',
     ''spacer'']"

fun add_child :: "node \<Rightarrow> frame list \<Rightarrow> frame list" where
  "add_child n [] = []"
| "add_child n ((name, as, children) # fs) = (name, as, n # children) # fs"

text \<open>\<open>endData\<close>: the text collected since the last tag becomes one string node; text that
  is only white space shrinks to one newline or one space, except below \<open>pre\<close> and
  \<open>textarea\<close>.\<close>

definition endData :: "string \<Rightarrow> frame list \<Rightarrow> frame list" where
  "endData current_data stack =
     (if current_data = [] then stack
      else if list_all is_space current_data
              \<and> \<not> list_ex (\<lambda>f. fst f \<in> set [''pre'', ''textarea'']) stack
      then add_child (NavigableString (if CHR 0x0A \<in> set current_data then [CHR 0x0A] else '' '')) stack
      else add_child (NavigableString current_data) stack)"

text \<open>\<open>popTag\<close>: the innermost open tag is closed and becomes a child of its parent.\<close>

fun popTag :: "frame list \<Rightarrow> frame list" where
  "popTag ((name, as, children) # f # fs) = add_child (Tag name as (rev children)) (f # fs)"
| "popTag fs = fs"

text \<open>\<open>_popToTag\<close>: open tags are closed up to and including the innermost one called
  \<open>name\<close>; an end tag with no open tag of its name is ignored.\<close>

fun pop_through :: "string \<Rightarrow> frame list \<Rightarrow> frame list" where
  "pop_through name ((n, as, children) # (n', as', children') # fs) =
     (if n = name then (n', as', Tag n as (rev children) # children') # fs
      else pop_through name ((n', as', Tag n as (rev children) # children') # fs))"
| "pop_through name fs = fs"

definition popToTag :: "string \<Rightarrow> frame list \<Rightarrow> frame list" where
  "popToTag name stack =
     (if name \<in> set (map fst (butlast stack)) then pop_through name stack else stack)"

fun close_all :: "frame list \<Rightarrow> node list" where
  "close_all [] = []"
| "close_all [(name, as, children)] = rev children"
| "close_all ((n, as, children) # (n', as', children') # fs) =
     close_all ((n', as', Tag n as (rev children) # children') # fs)"

fun build :: "token list \<Rightarrow> string \<Rightarrow> frame list \<Rightarrow> node list" where
  "build [] current_data stack = close_all (endData current_data stack)"
| "build (Data s # ts) current_data stack = build ts (current_data @ s) stack"
| "build (StartTag name as closed # ts) current_data stack =
     (if closed \<or> name \<in> set void_tags
      then build ts [] (popTag ((name, as, []) # endData current_data stack))
      else build ts [] ((name, as, []) # endData current_data stack))"
| "build (EndTag name # ts) current_data stack =
     build ts [] (popToTag name (endData current_data stack))"

text \<open>The top-level nodes of the parsed document.\<close>

definition BeautifulSoup :: "string \<Rightarrow> node list" where
  "BeautifulSoup html = build (tokenize html) [] [(''[document]'', [], [])]"

subsection \<open>Queries on the tree\<close>

fun tag_name :: "node \<Rightarrow> string" where
  "tag_name (NavigableString s) = []"
| "tag_name (Tag name as children) = name"

fun is_tag :: "node \<Rightarrow> bool" where
  "is_tag (NavigableString s) = False"
| "is_tag (Tag name as children) = True"

text \<open>\<open>tag.get_text()\<close>: the strings below the node, concatenated.\<close>

fun get_text :: "node \<Rightarrow> string" where
  "get_text (NavigableString s) = s"
| "get_text (Tag name as children) = concat (map get_text children)"

text \<open>The descendants of a node in document order.\<close>

fun descendants :: "node \<Rightarrow> node list" where
  "descendants (NavigableString s) = []"
| "descendants (Tag name as children) = concat (map (\<lambda>c. c # descendants c) children)"

text \<open>\<open>soup.find_all(names)\<close> on the document, and \<open>tag.find_all(names)\<close> on a tag.\<close>

definition find_all :: "string list \<Rightarrow> node list \<Rightarrow> node list" where
  "find_all names soup =
     filter (\<lambda>t. is_tag t \<and> tag_name t \<in> set names) (concat (map (\<lambda>c. c # descendants c) soup))"

text \<open>\<open>link.get('href', '')\<close>\<close>

fun get_href :: "node \<Rightarrow> string" where
  "get_href (NavigableString s) = []"
| "get_href (Tag name as children) = (case map_of as ''href'' of None \<Rightarrow> [] | Some v \<Rightarrow> v)"

fun has_href :: "node \<Rightarrow> bool" where
  "has_href (NavigableString s) = False"
| "has_href (Tag name as children) = (map_of as ''href'' \<noteq> None)"

text \<open>\<open>p.find_all('a', href=True)\<close>\<close>

fun contents :: "node \<Rightarrow> node list" where
  "contents (NavigableString s) = []"
| "contents (Tag name as children) = children"

definition find_links :: "node \<Rightarrow> node list" where
  "find_links p = filter has_href (find_all [''a''] (contents p))"

subsection \<open>Writing a tag back as markup\<close>

text \<open>\<open>str(tag)\<close>: text is written with \<open>&\<close>, \<open><\<close> and \<open>>\<close> as entities; attribute values
  stand in double quotes, or in single quotes when they hold a double quote and no single
  one; an empty void element is written \<open><br/>\<close>.\<close>

fun substitute_xml :: "string \<Rightarrow> string" where
  "substitute_xml [] = []"
| "substitute_xml (c # cs) =
     (if c = CHR ''&'' then ''&amp;'' @ substitute_xml cs
      else if c = CHR ''<'' then ''&lt;'' @ substitute_xml cs
      else if c = CHR ''>'' then ''&gt;'' @ substitute_xml cs
      else c # substitute_xml cs)"

definition quoted_attribute_value :: "string \<Rightarrow> string" where
  "quoted_attribute_value v =
     (if CHR 0x22 \<in> set v then
        (if CHR 0x27 \<in> set v
         then [CHR 0x22] @ concat (map (\<lambda>c. if c = CHR 0x22 then ''&quot;'' else [c]) v) @ [CHR 0x22]
         else [CHR 0x27] @ v @ [CHR 0x27])
      else [CHR 0x22] @ v @ [CHR 0x22])"

definition attr_str :: "string \<times> string \<Rightarrow> string" where
  "attr_str kv = '' '' @ fst kv @ ''='' @ quoted_attribute_value (substitute_xml (snd kv))"

fun str :: "node \<Rightarrow> string" where
  "str (NavigableString s) = substitute_xml s"
| "str (Tag name as children) =
     (if children = [] \<and> name \<in> set void_tags
      then ''<'' @ name @ concat (map attr_str as) @ ''/>''
      else ''<'' @ name @ concat (map attr_str as) @ ''>''
           @ concat (map str children) @ ''</'' @ name @ ''>'')"


text \<open>\<open>tag == h2\<close> on tags: the same name, the same attribute dictionary and the same
  contents, recursively.\<close>

fun tag_eq :: "node \<Rightarrow> node \<Rightarrow> bool" where
  "tag_eq (NavigableString s) (NavigableString t) = (s = t)"
| "tag_eq (Tag n as cs) (Tag n' as' cs') = (n = n' \<and> set as = set as' \<and> list_all2 tag_eq cs cs')"
| "tag_eq (NavigableString s) (Tag n' as' cs') = False"
| "tag_eq (Tag n as cs) (NavigableString t) = False"

section \<open>\<open>LinkForgeApp.add_link_to_word\<close>\<close>

text \<open>
  \<^verbatim>\<open>
  h2 = None
  for tag in soup.find_all('h2'):
      if 'Product Description' in tag.get_text():
          h2 = tag
          break
  \<close>
\<close>

definition find_h2 :: "node list \<Rightarrow> node option" where
  "find_h2 soup =
     List.find (\<lambda>tag. str_in ''Product Description'' (get_text tag)) (find_all [''h2''] soup)"

text \<open>
  \<^verbatim>\<open>
  paragraphs = []
  found_h2 = False
  for tag in soup.find_all(['h2', 'p']):
      if tag == h2:
          found_h2 = True
          continue
      if found_h2:
          if tag.name == 'p':
              paragraphs.append(tag)
          elif tag.name == 'h2':
              break
  \<close>
\<close>

fun paragraphs_after :: "node \<Rightarrow> bool \<Rightarrow> node list \<Rightarrow> node list" where
  "paragraphs_after h2 found_h2 [] = []"
| "paragraphs_after h2 found_h2 (tag # tags) =
     (if tag_eq tag h2 then paragraphs_after h2 True tags
      else if found_h2 then
        (if tag_name tag = ''p'' then tag # paragraphs_after h2 found_h2 tags
         else if tag_name tag = ''h2'' then []
         else paragraphs_after h2 found_h2 tags)
      else paragraphs_after h2 found_h2 tags)"

text \<open>
  \<^verbatim>\<open>
  for link in links:
      if link_url in link.get('href', '') and word.lower() in link.get_text().lower():
  \<close>
  for the links \<open>p.find_all('a', href=True)\<close> of a paragraph.
\<close>

definition is_linked :: "node \<Rightarrow> string \<Rightarrow> string \<Rightarrow> bool" where
  "is_linked p word link_url =
     list_ex (\<lambda>link. str_in link_url (get_href link)
                     \<and> str_in (lower word) (lower (get_text link)))
       (find_links p)"

text \<open>
  \<^verbatim>\<open>
  def replace(match):
      before = p_html[:match.start()]
      open_a = before.count('<a ') - before.count('</a>')
      if open_a > 0:
          return match.group(0)
      return f'<a href="{link_url}">{match.group(1)}</a>'
  \<close>
  for the match of the word that starts at position \<open>start\<close> of \<open>p_html\<close>.
\<close>

definition open_a :: "string \<Rightarrow> int" where
  "open_a html_before =
     int (str_count ''<a '' html_before) - int (str_count ''</a>'' html_before)"

definition link_markup :: "string \<Rightarrow> string \<Rightarrow> string" where
  "link_markup link_url matched =
     ''<a href='' @ [CHR 0x22] @ link_url @ [CHR 0x22] @ ''>'' @ matched @ ''</a>''"

definition replace :: "string \<Rightarrow> string \<Rightarrow> string \<Rightarrow> nat \<Rightarrow> string" where
  "replace p_html word link_url start =
     (let html_before = take start p_html;
          matched = take (length word) (drop start p_html)
      in if open_a html_before > 0 then matched else link_markup link_url matched)"

text \<open>\<open>pattern.sub(replace, p_html, count=1)\<close>: only the leftmost match is handed to
  \<open>replace\<close>, whatever \<open>replace\<close> returns for it.\<close>

definition pattern_sub1 :: "string \<Rightarrow> string \<Rightarrow> string \<Rightarrow> string" where
  "pattern_sub1 word link_url p_html =
     (case pattern_search word p_html of
        None \<Rightarrow> p_html
      | Some start \<Rightarrow>
          take start p_html @ replace p_html word link_url start
            @ drop (start + length word) p_html)"

text \<open>The loop \<open>for p in paragraphs\<close> of \<open>add_link_to_word\<close>.\<close>

fun link_paragraphs :: "node list \<Rightarrow> string \<Rightarrow> string \<Rightarrow> string \<Rightarrow> string" where
  "link_paragraphs [] html word link_url = html"
| "link_paragraphs (p # ps) html word link_url =
     (if \<not> str_in (lower word) (lower (get_text p)) then link_paragraphs ps html word link_url
      else if is_linked p word link_url then html
      else
        (let p_html = str p;
             new_p_html = pattern_sub1 word link_url p_html
         in if new_p_html \<noteq> p_html \<and> str_in link_url new_p_html
            then str_replace1 html p_html new_p_html
            else link_paragraphs ps html word link_url))"

definition add_link_to_word :: "string \<Rightarrow> string \<Rightarrow> string \<Rightarrow> string" where
  "add_link_to_word html word link_url =
     (if html = [] then html
      else
        (let soup = BeautifulSoup html
         in case find_h2 soup of
              None \<Rightarrow> html
            | Some h2 \<Rightarrow>
                link_paragraphs (paragraphs_after h2 False (find_all [''h2'', ''p''] soup))
                  html word link_url))"

section \<open>\<open>LinkForgeApp.update_product\<close> and \<open>process_product\<close>\<close>

text \<open>
  The application object with what the two methods read from it. The HTTP calls are the
  collaborators: \<open>get_product_description\<close> returns the description (\<open>None\<close> for a JSON
  \<open>null\<close>) and the product id of a product URL; \<open>post\<close> is the GraphQL request of
  \<open>update_product\<close> to a shop, \<open>None\<close> when anything in its \<open>try\<close> block raises. Of the
  response the method reads the status code, whether the JSON has the key \<open>errors\<close>, and
  the number of \<open>userErrors\<close> of \<open>productUpdate\<close> (0 when there are none).
\<close>

record response =
  status_code :: nat
  has_errors :: bool
  userErrors :: nat

record app =
  shopify_token :: string
  shopify_store :: string
  get_product_description :: "string \<Rightarrow> string option \<times> string"
  post :: "string \<Rightarrow> string \<Rightarrow> string \<Rightarrow> response option"

definition update_product :: "app \<Rightarrow> string \<Rightarrow> string \<Rightarrow> bool" where
  "update_product self product_gid html =
     (if shopify_token self = [] \<or> shopify_store self = [] then False
      else
        (case post self
                (if suffix ''.myshopify.com'' (shopify_store self) then shopify_store self
                 else shopify_store self @ ''.myshopify.com'')
                product_gid html of
           None \<Rightarrow> False
         | Some r \<Rightarrow>
             if status_code r = 200
             then (if has_errors r then False else userErrors r = 0)
             else False))"

text \<open>The result dictionary of \<open>process_product\<close>, by its \<open>status\<close>: \<open>error\<close> with the
  message, \<open>already_linked\<close> with the word, \<open>no_match\<close>, and \<open>success\<close> with \<open>linked\<close> and
  \<open>updated\<close>.\<close>

datatype result =
    Error string
  | AlreadyLinked string
  | NoMatch
  | Success nat bool

text \<open>
  The check of \<open>process_product\<close> for one word:
  \<^verbatim>\<open>
  soup = BeautifulSoup(description, 'html.parser')
  h2 = ... (as above)
  if h2:
      found_h2 = False
      for tag in soup.find_all(['h2', 'p']):
          if tag == h2:
              found_h2 = True
              continue
          if found_h2 and tag.name == 'p':
              links = tag.find_all('a', href=True)
              for link in links:
                  if link_url in link.get('href', '') and word.lower() in link.get_text().lower():
                      return {'status': 'already_linked', 'word': word}
  \<close>
\<close>

fun linked_after :: "node \<Rightarrow> bool \<Rightarrow> node list \<Rightarrow> string \<Rightarrow> string \<Rightarrow> bool" where
  "linked_after h2 found_h2 [] word link_url = False"
| "linked_after h2 found_h2 (tag # tags) word link_url =
     (if tag_eq tag h2 then linked_after h2 True tags word link_url
      else if found_h2 \<and> tag_name tag = ''p'' \<and> is_linked tag word link_url then True
      else linked_after h2 found_h2 tags word link_url)"

definition check_already_linked :: "string \<Rightarrow> string \<Rightarrow> string \<Rightarrow> bool" where
  "check_already_linked description word link_url =
     (let soup = BeautifulSoup description
      in case find_h2 soup of
           None \<Rightarrow> False
         | Some h2 \<Rightarrow> linked_after h2 False (find_all [''h2'', ''p''] soup) word link_url)"

text \<open>
  \<^verbatim>\<open>
  updated_html = description
  linked_count = 0
  for word in words:
      new_html = self.add_link_to_word(updated_html, word, link_url)
      if new_html != updated_html:
          updated_html = new_html
          linked_count += 1
  \<close>
\<close>

fun add_links :: "string list \<Rightarrow> string \<Rightarrow> string \<times> nat \<Rightarrow> string \<times> nat" where
  "add_links [] link_url (updated_html, linked_count) = (updated_html, linked_count)"
| "add_links (word # words) link_url (updated_html, linked_count) =
     (let new_html = add_link_to_word updated_html word link_url
      in if new_html \<noteq> updated_html
         then add_links words link_url (new_html, linked_count + 1)
         else add_links words link_url (updated_html, linked_count))"

text \<open>\<open>process_product\<close> returns its result dictionary; the second component lists the
  calls of \<open>update_product\<close> it made, each with the product id and the markup sent.\<close>

definition process_product ::
  "app \<Rightarrow> string \<Rightarrow> string list \<Rightarrow> string \<Rightarrow> result \<times> (string \<times> string) list" where
  "process_product self product_url words link_url =
     (case get_product_description self product_url of
        (None, product_gid) \<Rightarrow> (Error ''No description'', [])
      | (Some description, product_gid) \<Rightarrow>
          if description = [] then (Error ''No description'', [])
          else
            (case List.find (\<lambda>word. check_already_linked description word link_url) words of
               Some word \<Rightarrow> (AlreadyLinked word, [])
             | None \<Rightarrow>
                 (case add_links words link_url (description, 0) of
                    (updated_html, linked_count) \<Rightarrow>
                      if linked_count = 0 then (NoMatch, [])
                      else if product_gid \<noteq> [] \<and> shopify_token self \<noteq> []
                      then (Success linked_count (update_product self product_gid updated_html),
                            [(product_gid, updated_html)])
                      else (Success linked_count False, []))))"

section \<open>The loop of \<open>start_processing\<close>\<close>

record results =
  success :: nat
  already_linked :: nat
  no_match :: nat
  error :: nat

text \<open>
  \<^verbatim>\<open>
  if result['status'] == 'success':
      results['success'] += 1
  elif result['status'] == 'already_linked':
      results['already_linked'] += 1
  elif result['status'] == 'no_match':
      results['no_match'] += 1
  else:
      results['error'] += 1
  \<close>
\<close>

fun count_result :: "result \<Rightarrow> results \<Rightarrow> results" where
  "count_result (Success linked updated) r = r\<lparr>success := success r + 1\<rparr>"
| "count_result (AlreadyLinked word) r = r\<lparr>already_linked := already_linked r + 1\<rparr>"
| "count_result NoMatch r = r\<lparr>no_match := no_match r + 1\<rparr>"
| "count_result (Error message) r = r\<lparr>error := error r + 1\<rparr>"

text \<open>\<open>for i, product_url in enumerate(products, 1)\<close>, from the counters \<open>r\<close>.\<close>

fun process :: "app \<Rightarrow> string list \<Rightarrow> string list \<Rightarrow> string \<Rightarrow> results \<Rightarrow> results" where
  "process self [] words link_url r = r"
| "process self (product_url # products) words link_url r =
     process self products words link_url
       (count_result (fst (process_product self product_url words link_url)) r)"

section \<open>The regions of a document\<close>

text \<open>The paragraphs that \<open>add_link_to_word\<close> collects for a document: those after the
  \<open>Product Description\<close> heading, up to the next \<open>h2\<close> that is not equal to it.\<close>

definition scoped_paragraphs :: "string \<Rightarrow> node list" where
  "scoped_paragraphs html =
     (case find_h2 (BeautifulSoup html) of
        None \<Rightarrow> []
      | Some h2 \<Rightarrow> paragraphs_after h2 False (find_all [''h2'', ''p''] (BeautifulSoup html)))"

text \<open>The paragraphs that the check of \<open>process_product\<close> visits: its loop has no
  \<open>break\<close>, so it visits every paragraph after the heading.\<close>

fun guard_paragraphs :: "node \<Rightarrow> bool \<Rightarrow> node list \<Rightarrow> node list" where
  "guard_paragraphs h2 found_h2 [] = []"
| "guard_paragraphs h2 found_h2 (tag # tags) =
     (if tag_eq tag h2 then guard_paragraphs h2 True tags
      else if found_h2 \<and> tag_name tag = ''p'' then tag # guard_paragraphs h2 found_h2 tags
      else guard_paragraphs h2 found_h2 tags)"

definition checked_paragraphs :: "string \<Rightarrow> node list" where
  "checked_paragraphs description =
     (case find_h2 (BeautifulSoup description) of
        None \<Rightarrow> []
      | Some h2 \<Rightarrow> guard_paragraphs h2 False (find_all [''h2'', ''p''] (BeautifulSoup description)))"

text \<open>An application object for examples: every product URL has the given description,
  the credentials are set, and every GraphQL request gets the given reply.\<close>

definition shop_with :: "string \<Rightarrow> response option \<Rightarrow> app" where
  "shop_with description reply =
     \<lparr>shopify_token = ''shpat_1'', shopify_store = ''rezagem'',
      get_product_description = (\<lambda>product_url. (Some description, ''gid://shopify/Product/1'')),
      post = (\<lambda>shop product_gid html. reply)\<rparr>"

text \<open>A document that is the heading and one paragraph, and the string nodes that the
  tree builder makes of a piece of text.\<close>

definition described :: "string \<Rightarrow> string" where
  "described paragraph = ''<h2>Product Description</h2><p>'' @ paragraph @ ''</p>''"

definition text_nodes :: "string \<Rightarrow> node list" where
  "text_nodes s =
     (if s = [] then []
      else [NavigableString
              (if list_all is_space s then (if CHR 0x0A \<in> set s then [CHR 0x0A] else '' '') else s)])"

section \<open>Facts about the string operations\<close>

lemma prefix_take: "prefix xs ys \<Longrightarrow> take (length xs) ys = xs"
  by (auto simp: prefix_def)

lemma str_find_Some:
  "str_find sub s = Some i \<Longrightarrow> i + length sub \<le> length s \<and> take (length sub) (drop i s) = sub"
proof (induction s arbitrary: i)
  case Nil
  then show ?case by (simp split: if_splits)
next
  case (Cons c cs)
  show ?case
  proof (cases "prefix sub (c # cs)")
    case True
    with Cons.prems have "i = 0" by simp
    with True show ?thesis
      using prefix_take [OF True] prefix_length_le [OF True] by simp
  next
    case False
    with Cons.prems obtain j where j: "str_find sub cs = Some j" "i = Suc j"
      by auto
    from Cons.IH [OF j(1)] j(2) show ?thesis by simp
  qed
qed

lemma str_find_None: "str_find sub s = None \<Longrightarrow> \<not> sublist sub s"
proof (induction s)
  case Nil
  then show ?case by (simp split: if_splits)
next
  case (Cons c cs)
  then show ?case
    by (auto simp: sublist_Cons_right split: if_splits)
qed

lemma str_in_sublist: "str_in sub s = sublist sub s"
proof (cases "str_find sub s")
  case None
  then show ?thesis using str_find_None by (simp add: str_in_def)
next
  case (Some i)
  from str_find_Some [OF Some]
  have "s = take i s @ sub @ drop (i + length sub) s"
    by (metis append_take_drop_id drop_drop add.commute)
  then have "sublist sub s" unfolding sublist_def by blast
  with Some show ?thesis by (simp add: str_in_def)
qed

lemma str_replace1_cases:
  "str_replace1 s old new = s
   \<or> (\<exists>a b. s = a @ old @ b \<and> str_replace1 s old new = a @ new @ b)"
proof (cases "str_find old s")
  case None
  then show ?thesis by (simp add: str_replace1_def)
next
  case (Some i)
  from str_find_Some [OF Some]
  have "s = take i s @ old @ drop (i + length old) s"
    by (metis append_take_drop_id drop_drop add.commute)
  with Some show ?thesis
    unfolding str_replace1_def by auto
qed

lemma pattern_search_Some:
  "pattern_search word s = Some i \<Longrightarrow> match_at word s i \<and> (\<forall>j<i. \<not> match_at word s j)"
  unfolding pattern_search_def find_Some_iff
  by (auto simp del: upt_Suc)

lemma match_at_split:
  assumes "match_at word s i"
  shows "s = take i s @ take (length word) (drop i s) @ drop (i + length word) s"
    and "lower (take (length word) (drop i s)) = lower word"
proof -
  show "s = take i s @ take (length word) (drop i s) @ drop (i + length word) s"
    by (metis append_take_drop_id drop_drop add.commute)
  show "lower (take (length word) (drop i s)) = lower word"
    using assms by (simp add: match_at_def)
qed

lemma pattern_sub1_cases:
  "pattern_sub1 word link_url p = p
   \<or> (\<exists>a m b. p = a @ m @ b
        \<and> pattern_sub1 word link_url p = a @ link_markup link_url m @ b
        \<and> lower m = lower word)"
proof (cases "pattern_search word p")
  case None
  then show ?thesis by (simp add: pattern_sub1_def)
next
  case (Some i)
  then have m: "match_at word p i" by (simp add: pattern_search_Some)
  note sp = match_at_split [OF m]
  show ?thesis
  proof (cases "0 < open_a (take i p)")
    case True
    with Some have "pattern_sub1 word link_url p
        = take i p @ take (length word) (drop i p) @ drop (i + length word) p"
      by (simp add: pattern_sub1_def replace_def)
    with sp(1) show ?thesis by simp
  next
    case False
    with Some have "pattern_sub1 word link_url p
        = take i p @ link_markup link_url (take (length word) (drop i p)) @ drop (i + length word) p"
      by (simp add: pattern_sub1_def replace_def)
    with sp show ?thesis by blast
  qed
qed

lemma is_word_lower_char: "is_word (lower_char c) = is_word c"
  by (auto simp: is_word_def is_alnum_def lower_char_def is_upper_def is_lower_def is_digit_def)

lemma lower_eq_nth:
  assumes "lower xs = lower ys" "k < length xs"
  shows "is_word (xs ! k) = is_word (ys ! k)"
proof -
  have len: "length xs = length ys"
    using assms(1) unfolding lower_def by (rule map_eq_imp_length_eq)
  have "lower_char (xs ! k) = lower xs ! k" using assms(2) by (simp add: lower_def)
  also have "\<dots> = lower_char (ys ! k)" using assms len by (simp add: lower_def)
  finally show ?thesis by (metis is_word_lower_char)
qed

lemma find_None: "(\<And>x. x \<in> set xs \<Longrightarrow> \<not> P x) \<Longrightarrow> List.find P xs = None"
  by (simp add: find_None_iff)

lemma find_first:
  "x \<in> set xs \<Longrightarrow> P x \<Longrightarrow> \<exists>y. List.find P xs = Some y"
  by (cases "List.find P xs") (auto simp: find_None_iff)

section \<open>Facts about \<open>add_link_to_word\<close> and \<open>process_product\<close>\<close>

lemma BeautifulSoup_empty: "BeautifulSoup [] = []"
  by (simp add: BeautifulSoup_def endData_def)

lemma find_h2_empty: "find_h2 [] = None"
  by (simp add: find_h2_def find_all_def)

lemma add_link_to_word_scoped:
  "add_link_to_word html word link_url =
     link_paragraphs (scoped_paragraphs html) html word link_url"
proof (cases "html = []")
  case True
  then show ?thesis
    by (simp add: add_link_to_word_def scoped_paragraphs_def BeautifulSoup_empty find_h2_empty)
next
  case False
  then show ?thesis
    by (simp add: add_link_to_word_def scoped_paragraphs_def Let_def split: option.splits)
qed

lemma link_paragraphs_cases:
  "link_paragraphs ps html word link_url = html
   \<or> (\<exists>pre m post. html = pre @ m @ post
        \<and> link_paragraphs ps html word link_url = pre @ link_markup link_url m @ post
        \<and> lower m = lower word)"
proof (induction ps)
  case Nil
  show ?case by simp
next
  case (Cons p ps)
  let ?new = "pattern_sub1 word link_url (str p)"
  have rep: "str_replace1 html (str p) ?new = html
     \<or> (\<exists>pre m post. html = pre @ m @ post
        \<and> str_replace1 html (str p) ?new = pre @ link_markup link_url m @ post
        \<and> lower m = lower word)"
  proof (cases "?new = str p")
    case True
    show ?thesis
      using str_replace1_cases [of html "str p" "str p"] True by auto
  next
    case False
    with pattern_sub1_cases [of word link_url "str p"] obtain a m b where
      p: "str p = a @ m @ b" and n: "?new = a @ link_markup link_url m @ b"
      and l: "lower m = lower word" by blast
    from str_replace1_cases [of html "str p" ?new] show ?thesis
    proof
      assume "str_replace1 html (str p) ?new = html"
      then show ?thesis by simp
    next
      assume "\<exists>a' b'. html = a' @ str p @ b' \<and> str_replace1 html (str p) ?new = a' @ ?new @ b'"
      then obtain a' b' where h: "html = a' @ str p @ b'"
        and r: "str_replace1 html (str p) ?new = a' @ ?new @ b'" by blast
      have "html = (a' @ a) @ m @ (b @ b')" using h p by simp
      moreover have "str_replace1 html (str p) ?new = (a' @ a) @ link_markup link_url m @ (b @ b')"
        using r n by simp
      ultimately show ?thesis using l by blast
    qed
  qed
  show ?case
    using Cons.IH rep by (simp add: Let_def)
qed

lemma link_paragraphs_no_candidate:
  "\<forall>p\<in>set ps. pattern_sub1 word link_url (str p) = str p
   \<Longrightarrow> link_paragraphs ps html word link_url = html"
  by (induction ps) (simp_all add: Let_def)


lemma check_already_linked_no_h2:
  "find_h2 (BeautifulSoup description) = None \<Longrightarrow> \<not> check_already_linked description word link_url"
  by (simp add: check_already_linked_def)

lemma add_link_to_word_no_h2:
  "find_h2 (BeautifulSoup html) = None \<Longrightarrow> add_link_to_word html word link_url = html"
  by (simp add: add_link_to_word_def)

lemma add_links_no_h2:
  "find_h2 (BeautifulSoup html) = None \<Longrightarrow> add_links words link_url (html, n) = (html, n)"
  by (induction words) (simp_all add: add_link_to_word_no_h2)

lemma linked_after_iff:
  "linked_after h2 found tags word link_url
     = (\<exists>p\<in>set (guard_paragraphs h2 found tags). is_linked p word link_url)"
  by (induction tags arbitrary: found) auto

lemma paragraphs_after_subset:
  "set (paragraphs_after h2 found tags) \<subseteq> set (guard_paragraphs h2 found tags)"
  by (induction tags arbitrary: found) auto

lemma is_linked_iff:
  "is_linked p word link_url
     = (\<exists>link\<in>set (find_links p). sublist link_url (get_href link)
          \<and> sublist (lower word) (lower (get_text link)))"
  by (simp add: is_linked_def list_ex_iff str_in_sublist)

lemma check_already_linked_iff:
  "check_already_linked description word link_url
     = (\<exists>p\<in>set (checked_paragraphs description). is_linked p word link_url)"
  by (cases "find_h2 (BeautifulSoup description)")
     (simp_all add: check_already_linked_def checked_paragraphs_def linked_after_iff Let_def)

lemma scoped_subset_checked:
  "set (scoped_paragraphs description) \<subseteq> set (checked_paragraphs description)"
  by (cases "find_h2 (BeautifulSoup description)")
     (simp_all add: scoped_paragraphs_def checked_paragraphs_def paragraphs_after_subset)

lemma process_product_guard:
  assumes "get_product_description self product_url = (Some description, product_gid)"
    and "description \<noteq> []"
    and "List.find (\<lambda>x. check_already_linked description x link_url) words = Some w"
  shows "process_product self product_url words link_url = (AlreadyLinked w, [])"
  using assms by (simp add: process_product_def)

lemma process_product_linked:
  assumes "get_product_description self product_url = (Some description, product_gid)"
    and "description \<noteq> []"
    and "List.find (\<lambda>x. check_already_linked description x link_url) words = None"
    and "add_links words link_url (description, 0) = (updated_html, linked_count)"
    and "0 < linked_count"
  shows "process_product self product_url words link_url =
     (Success linked_count
        (product_gid \<noteq> [] \<and> shopify_token self \<noteq> []
         \<and> update_product self product_gid updated_html),
      if product_gid \<noteq> [] \<and> shopify_token self \<noteq> []
      then [(product_gid, updated_html)] else [])"
proof -
  have "process_product self product_url words link_url =
     (if product_gid \<noteq> [] \<and> shopify_token self \<noteq> []
                      then (Success linked_count (update_product self product_gid updated_html),
                            [(product_gid, updated_html)])
                      else (Success linked_count False, []))"
    unfolding process_product_def using assms by simp
  then show ?thesis by (simp split: if_splits)
qed

section \<open>The reader on a heading and one paragraph\<close>

text \<open>
  What \<open>BeautifulSoup\<close> returns for a document that is the heading and one paragraph of
  text, with or without one link in it, and where the pattern of \<open>add_link_to_word\<close>
  matches in the markup of such a paragraph.
\<close>

lemma takeWhile_until:
  "\<forall>c\<in>set s. P c \<Longrightarrow> \<not> P x \<Longrightarrow> takeWhile P (s @ x # r) = s"
  by (induction s) auto

lemma dropWhile_until:
  "\<forall>c\<in>set s. P c \<Longrightarrow> \<not> P x \<Longrightarrow> dropWhile P (s @ x # r) = x # r"
  by (induction s) auto

lemma tokenize_text:
  assumes "CHR ''<'' \<notin> set s"
  shows "tokenize (s @ CHR ''<'' # r) = (if s = [] then [] else [Data s]) @ tokenize (CHR ''<'' # r)"
proof (cases s)
  case Nil
  then show ?thesis by simp
next
  case (Cons c cs)
  with assms have c: "c \<noteq> CHR ''<''" and cs: "\<forall>x\<in>set cs. x \<noteq> CHR ''<''" by auto
  have "takeWhile (\<lambda>x. x \<noteq> CHR ''<'') (cs @ CHR ''<'' # r) = cs"
    and "dropWhile (\<lambda>x. x \<noteq> CHR ''<'') (cs @ CHR ''<'' # r) = CHR ''<'' # r"
    using cs by (simp_all add: takeWhile_until dropWhile_until)
  with Cons c show ?thesis by simp
qed

lemma is_alpha_simps:
  "is_alpha (CHR ''p'')" "is_alpha (CHR ''a'')" "is_alpha (CHR ''h'')"
  "\<not> is_alpha (CHR ''/'')"
  by code_simp+

lemma tag_char_simps:
  "tag_char (CHR ''p'')" "tag_char (CHR ''a'')" "tag_char (CHR ''h'')" "tag_char (CHR ''2'')"
  "\<not> tag_char (CHR ''>'')" "\<not> tag_char (CHR '' '')" 
  by code_simp+

lemma lower_simps:
  "lower ''p'' = ''p''" "lower ''a'' = ''a''" "lower ''h2'' = ''h2''" "lower ''href'' = ''href''"
  by code_simp+

lemma tokenize_p: "tokenize (''<p>'' @ r) = StartTag ''p'' [] False # tokenize r"
  by (simp add: is_alpha_simps tag_char_simps lower_simps is_space_def)

lemma tokenize_h2: "tokenize (''<h2>'' @ r) = StartTag ''h2'' [] False # tokenize r"
  by (simp add: is_alpha_simps tag_char_simps lower_simps is_space_def)

lemma tokenize_end_p: "tokenize (''</p>'' @ r) = EndTag ''p'' # tokenize r"
  by (simp add: is_alpha_simps tag_char_simps lower_simps is_space_def)

lemma tokenize_end_a: "tokenize (''</a>'' @ r) = EndTag ''a'' # tokenize r"
  by (simp add: is_alpha_simps tag_char_simps lower_simps is_space_def)

lemma tokenize_end_h2: "tokenize (''</h2>'' @ r) = EndTag ''h2'' # tokenize r"
  by (simp add: is_alpha_simps tag_char_simps lower_simps is_space_def)

lemma is_space_simps:
  "is_space (CHR '' '')" "\<not> is_space (CHR ''h'')" "\<not> is_space (CHR ''='')"
  "\<not> is_space (CHR 0x22)" "\<not> is_space (CHR ''>'')"
  by code_simp+

lemma attr_char_simps:
  "attr_char (CHR ''r'')" "attr_char (CHR ''e'')" "attr_char (CHR ''f'')"
  "\<not> attr_char (CHR ''='')"
  by code_simp+

lemma parse_value_quoted:
  assumes "CHR 0x22 \<notin> set v"
  shows "parse_value (CHR 0x22 # v @ CHR 0x22 # r) = Some (v, r)"
proof -
  from assms have v: "\<forall>c\<in>set v. c \<noteq> CHR 0x22" by auto
  have "takeWhile (\<lambda>c. c \<noteq> CHR 0x22) (v @ CHR 0x22 # r) = v"
    and "dropWhile (\<lambda>c. c \<noteq> CHR 0x22) (v @ CHR 0x22 # r) = CHR 0x22 # r"
    using v by (simp_all add: takeWhile_until dropWhile_until)
  then show ?thesis by (simp add: parse_value_def)
qed

lemma tokenize_a:
  assumes "CHR 0x22 \<notin> set link_url"
  shows "tokenize (''<a href='' @ [CHR 0x22] @ link_url @ [CHR 0x22] @ ''>'' @ r)
           = StartTag ''a'' [(''href'', link_url)] False # tokenize r"
proof -
  have "parse_attrs [] ('' href='' @ [CHR 0x22] @ link_url @ [CHR 0x22] @ ''>'' @ r)
          = Some ([(''href'', link_url)], False, r)"
    using parse_value_quoted [OF assms, of "CHR ''>'' # r"]
    by (simp add: is_space_simps attr_char_simps lower_simps)
  then show ?thesis
    by (simp add: is_alpha_simps tag_char_simps lower_simps)
qed

lemma tokenize_described:
  assumes "CHR ''<'' \<notin> set t1" "CHR ''<'' \<notin> set m" "CHR ''<'' \<notin> set t2"
    and "CHR 0x22 \<notin> set link_url"
  shows "tokenize (described (t1 @ link_markup link_url m @ t2))
     = [StartTag ''h2'' [] False, Data ''Product Description'', EndTag ''h2'',
        StartTag ''p'' [] False]
       @ (if t1 = [] then [] else [Data t1])
       @ [StartTag ''a'' [(''href'', link_url)] False]
       @ (if m = [] then [] else [Data m])
       @ [EndTag ''a'']
       @ (if t2 = [] then [] else [Data t2])
       @ [EndTag ''p'']"
proof -
  have e1: "tokenize (t2 @ ''</p>'') = (if t2 = [] then [] else [Data t2]) @ [EndTag ''p'']"
    using tokenize_text [OF assms(3), of "''/p>''"] tokenize_end_p [of "[]"] by simp
  have e2: "tokenize (m @ ''</a>'' @ t2 @ ''</p>'')
      = (if m = [] then [] else [Data m]) @ EndTag ''a'' # tokenize (t2 @ ''</p>'')"
    using tokenize_text [OF assms(2), of "''/a>'' @ t2 @ ''</p>''"]
      tokenize_end_a [of "t2 @ ''</p>''"] by simp
  have e3: "tokenize (''<a href='' @ [CHR 0x22] @ link_url @ [CHR 0x22] @ ''>'' @ m @ ''</a>'' @ t2 @ ''</p>'')
      = StartTag ''a'' [(''href'', link_url)] False # tokenize (m @ ''</a>'' @ t2 @ ''</p>'')"
    by (rule tokenize_a [OF assms(4)])
  have e4: "tokenize (t1 @ ''<a href='' @ [CHR 0x22] @ link_url @ [CHR 0x22] @ ''>'' @ m @ ''</a>'' @ t2 @ ''</p>'')
      = (if t1 = [] then [] else [Data t1])
        @ tokenize (''<a href='' @ [CHR 0x22] @ link_url @ [CHR 0x22] @ ''>'' @ m @ ''</a>'' @ t2 @ ''</p>'')"
    using tokenize_text [OF assms(1), of "''a href='' @ [CHR 0x22] @ link_url @ [CHR 0x22] @ ''>'' @ m @ ''</a>'' @ t2 @ ''</p>''"]
    by simp
  have e5: "tokenize (''Product Description</h2>'' @ r) = Data ''Product Description'' # EndTag ''h2'' # tokenize r" for r
    using tokenize_text [of "''Product Description''" "''/h2>'' @ r"] tokenize_end_h2 [of r]
    by simp
  have "tokenize (described (t1 @ link_markup link_url m @ t2))
      = StartTag ''h2'' [] False # Data ''Product Description'' # EndTag ''h2''
        # StartTag ''p'' [] False
        # tokenize (t1 @ ''<a href='' @ [CHR 0x22] @ link_url @ [CHR 0x22] @ ''>'' @ m @ ''</a>'' @ t2 @ ''</p>'')"
    using tokenize_h2 [of "''Product Description</h2><p>'' @ t1 @ link_markup link_url m @ t2 @ ''</p>''"]
      e5 [of "''<p>'' @ t1 @ link_markup link_url m @ t2 @ ''</p>''"]
      tokenize_p [of "t1 @ link_markup link_url m @ t2 @ ''</p>''"]
    by (simp add: described_def link_markup_def)
  with e1 e2 e3 e4 show ?thesis by simp
qed

lemma endData_text_nodes:
  assumes "\<not> list_ex (\<lambda>f. fst f \<in> set [''pre'', ''textarea'']) ((n, as, ch) # fs)"
  shows "endData s ((n, as, ch) # fs) = (n, as, text_nodes s @ ch) # fs"
  using assms by (simp add: endData_def text_nodes_def)

lemma text_nodes_Nil: "text_nodes [] = []"
  by (simp add: text_nodes_def)

lemma build_optional_data:
  "build ((if s = [] then [] else [Data s]) @ ts) [] st = build ts s st"
  by simp

lemma soup_described:
  assumes "CHR ''<'' \<notin> set t1" "CHR ''<'' \<notin> set m" "CHR ''<'' \<notin> set t2"
    and "CHR 0x22 \<notin> set link_url"
  shows "BeautifulSoup (described (t1 @ link_markup link_url m @ t2))
     = [Tag ''h2'' [] [NavigableString ''Product Description''],
        Tag ''p'' [] (text_nodes t1 @ Tag ''a'' [(''href'', link_url)] (text_nodes m) # text_nodes t2)]"
proof -
  let ?root = "(''[document]'', [], []) :: frame"
  let ?h2 = "Tag ''h2'' [] [NavigableString ''Product Description'']"
  have s1: "build ([StartTag ''h2'' [] False, Data ''Product Description'', EndTag ''h2'',
        StartTag ''p'' [] False] @ ts) [] [?root]
      = build ts [] [(''p'', [], []), (''[document]'', [], [?h2])]" for ts
    by (simp add: endData_def popToTag_def void_tags_def is_space_def)
  have s2: "build ((if t1 = [] then [] else [Data t1])
        @ [StartTag ''a'' [(''href'', link_url)] False] @ ts) [] [(''p'', [], []), (''[document]'', [], [?h2])]
      = build ts [] [(''a'', [(''href'', link_url)], []), (''p'', [], text_nodes t1), (''[document]'', [], [?h2])]" for ts
    unfolding build_optional_data
    by (simp add: endData_text_nodes void_tags_def)
  have s3: "build ((if m = [] then [] else [Data m]) @ [EndTag ''a''] @ ts) []
        [(''a'', [(''href'', link_url)], []), (''p'', [], text_nodes t1), (''[document]'', [], [?h2])]
      = build ts [] [(''p'', [], Tag ''a'' [(''href'', link_url)] (rev (text_nodes m)) # text_nodes t1),
                     (''[document]'', [], [?h2])]" for ts
    unfolding build_optional_data
    by (simp add: endData_text_nodes popToTag_def)
  have s4: "build ((if t2 = [] then [] else [Data t2]) @ [EndTag ''p'']) []
        [(''p'', [], Tag ''a'' [(''href'', link_url)] (rev (text_nodes m)) # text_nodes t1),
                     (''[document]'', [], [?h2])]
      = [?h2, Tag ''p'' [] (rev (text_nodes t2 @ Tag ''a'' [(''href'', link_url)] (rev (text_nodes m)) # text_nodes t1))]"
    unfolding build_optional_data
    by (simp add: endData_text_nodes popToTag_def text_nodes_Nil)
  have r: "rev (text_nodes x) = text_nodes x" for x
    by (simp add: text_nodes_def)
  show ?thesis
    unfolding BeautifulSoup_def tokenize_described [OF assms]
    using s1 s2 s3 s4 by (simp add: r)
qed

lemma soup_plain:
  assumes "CHR ''<'' \<notin> set t"
  shows "BeautifulSoup (described t)
     = [Tag ''h2'' [] [NavigableString ''Product Description''], Tag ''p'' [] (text_nodes t)]"
proof -
  let ?root = "(''[document]'', [], []) :: frame"
  let ?h2 = "Tag ''h2'' [] [NavigableString ''Product Description'']"
  have e5: "tokenize (''Product Description</h2>'' @ r) = Data ''Product Description'' # EndTag ''h2'' # tokenize r" for r
    using tokenize_text [of "''Product Description''" "''/h2>'' @ r"] tokenize_end_h2 [of r]
    by simp
  have e1: "tokenize (t @ ''</p>'') = (if t = [] then [] else [Data t]) @ [EndTag ''p'']"
    using tokenize_text [OF assms, of "''/p>''"] tokenize_end_p [of "[]"] by simp
  have tok: "tokenize (described t)
      = [StartTag ''h2'' [] False, Data ''Product Description'', EndTag ''h2'',
         StartTag ''p'' [] False] @ (if t = [] then [] else [Data t]) @ [EndTag ''p'']"
    using tokenize_h2 [of "''Product Description</h2><p>'' @ t @ ''</p>''"]
      e5 [of "''<p>'' @ t @ ''</p>''"] tokenize_p [of "t @ ''</p>''"] e1
    by (simp add: described_def)
  have s1: "build ([StartTag ''h2'' [] False, Data ''Product Description'', EndTag ''h2'',
        StartTag ''p'' [] False] @ ts) [] [?root]
      = build ts [] [(''p'', [], []), (''[document]'', [], [?h2])]" for ts
    by (simp add: endData_def popToTag_def void_tags_def is_space_def)
  have s4: "build ((if t = [] then [] else [Data t]) @ [EndTag ''p'']) []
        [(''p'', [], []), (''[document]'', [], [?h2])]
      = [?h2, Tag ''p'' [] (rev (text_nodes t))]"
    unfolding build_optional_data
    by (simp add: endData_text_nodes popToTag_def text_nodes_Nil)
  have r: "rev (text_nodes x) = text_nodes x" for x
    by (simp add: text_nodes_def)
  show ?thesis
    unfolding BeautifulSoup_def tok using s1 s4 by (simp add: r)
qed

lemma is_word_not_space: "is_word c \<Longrightarrow> \<not> is_space c"
  by (auto simp: is_word_def is_alnum_def is_upper_def is_lower_def is_digit_def is_space_def)

lemma is_word_markup:
  "\<not> is_word (CHR ''<'')" "\<not> is_word (CHR ''>'')" "\<not> is_word (CHR ''/'')"
  "is_word (CHR ''p'')"
  by code_simp+

lemma find_all_simps:
  "find_all names [] = []"
  "find_all names (NavigableString s # rest) = find_all names rest"
  "find_all names (Tag n as kids # rest)
     = (if n \<in> set names then [Tag n as kids] else []) @ find_all names kids @ find_all names rest"
  by (simp_all add: find_all_def)

lemma find_all_append: "find_all names (xs @ ys) = find_all names xs @ find_all names ys"
  by (simp add: find_all_def)

lemma find_all_text_nodes: "find_all names (text_nodes s) = []"
  by (simp add: text_nodes_def find_all_simps)

lemma text_nodes_word:
  assumes "c \<in> set t" "is_word c"
  shows "text_nodes t = [NavigableString t]"
proof -
  from assms have "\<not> is_space c" by (simp add: is_word_not_space)
  with assms(1) have "\<not> list_all is_space t"
    unfolding list_all_iff by blast
  moreover from assms have "t \<noteq> []" by auto
  ultimately show ?thesis by (simp add: text_nodes_def)
qed

lemma heading_and_paragraph:
  assumes soup: "BeautifulSoup html
      = [Tag ''h2'' [] [NavigableString ''Product Description''], Tag ''p'' [] kids]"
    and kids: "find_all [''h2'', ''p''] kids = []" "find_all [''h2''] kids = []"
  shows "scoped_paragraphs html = [Tag ''p'' [] kids]"
    and "checked_paragraphs html = [Tag ''p'' [] kids]"
proof -
  let ?h2 = "Tag ''h2'' [] [NavigableString ''Product Description'']"
  have pd: "str_in ''Product Description'' ''Product Description''"
    by (simp add: str_in_sublist)
  have f: "find_h2 (BeautifulSoup html) = Some ?h2"
    unfolding soup find_h2_def using kids(2) pd by (simp add: find_all_simps)
  have a: "find_all [''h2'', ''p''] (BeautifulSoup html) = [?h2, Tag ''p'' [] kids]"
    unfolding soup using kids(1) by (simp add: find_all_simps)
  show "scoped_paragraphs html = [Tag ''p'' [] kids]"
    unfolding scoped_paragraphs_def f a by simp
  show "checked_paragraphs html = [Tag ''p'' [] kids]"
    unfolding checked_paragraphs_def f a by simp
qed

lemma substitute_xml_plain:
  "\<forall>c\<in>set t. c \<noteq> CHR ''<'' \<and> c \<noteq> CHR ''>'' \<and> c \<noteq> CHR ''&'' \<Longrightarrow> substitute_xml t = t"
  by (induction t) auto

lemma count_from_no_tag:
  "CHR ''<'' \<notin> set x \<Longrightarrow> count_from k (CHR ''<'' # sub) x = 0"
  by (induction x arbitrary: k) auto

lemma open_a_plain:
  assumes "CHR ''<'' \<notin> set x"
  shows "open_a (''<p>'' @ x) = 0"
  using assms by (simp add: open_a_def str_count_def count_from_no_tag)

lemma match_at_word_chars:
  assumes m: "match_at word s j" and w: "\<forall>c\<in>set word. is_word c" and k: "k < length word"
  shows "is_word (s ! (j + k))"
proof -
  from m have le: "j + length word \<le> length s"
    and lw: "lower (take (length word) (drop j s)) = lower word"
    by (simp_all add: match_at_def)
  have kk: "k < length (take (length word) (drop j s))" using le k by simp
  have "is_word (take (length word) (drop j s) ! k) = is_word (word ! k)"
    by (rule lower_eq_nth [OF lw kk])
  moreover have "take (length word) (drop j s) ! k = s ! (j + k)" using le k by simp
  moreover have "is_word (word ! k)" using w k by simp
  ultimately show ?thesis by simp
qed

lemma match_at_single:
  assumes m: "match_at word s j" and l: "length word = 1"
  shows "lower word = lower [s ! j]"
proof -
  from m l have le: "j + 1 \<le> length s"
    and lw: "lower (take 1 (drop j s)) = lower word"
    by (simp_all add: match_at_def)
  have "take 1 (drop j s) = [s ! j]"
    using le by (simp add: take_Suc_conv_app_nth [of 0] Cons_nth_drop_Suc [symmetric] hd_drop_conv_nth take_Suc)
  with lw show ?thesis by simp
qed

lemma paragraph_nth:
  "(''<p>'' @ t @ ''</p>'') ! 0 = CHR ''<''"
  "(''<p>'' @ t @ ''</p>'') ! 1 = CHR ''p''"
  "(''<p>'' @ t @ ''</p>'') ! 2 = CHR ''>''"
  "k < length t \<Longrightarrow> (''<p>'' @ t @ ''</p>'') ! (3 + k) = t ! k"
  "(''<p>'' @ t @ ''</p>'') ! (3 + length t) = CHR ''<''"
  "(''<p>'' @ t @ ''</p>'') ! (4 + length t) = CHR ''/''"
  "(''<p>'' @ t @ ''</p>'') ! (5 + length t) = CHR ''p''"
  "(''<p>'' @ t @ ''</p>'') ! (6 + length t) = CHR ''>''"
  by (simp_all add: nth_append nth_Cons')

lemma match_in_paragraph_text:
  assumes m: "match_at word (''<p>'' @ t @ ''</p>'') j"
    and ne: "word \<noteq> []"
    and w: "\<forall>c\<in>set word. is_word c"
    and p: "lower word \<noteq> ''p''"
  shows "3 \<le> j \<and> j + length word \<le> 3 + length t"
proof -
  let ?s = "''<p>'' @ t @ ''</p>''"
  let ?n = "length word"
  have n: "0 < ?n" using ne by simp
  from m have le: "j + ?n \<le> length t + 7" by (simp add: match_at_def)
  have W: "is_word c" if "k < ?n" "j + k = i" "?s ! i = c" for k i c
    using match_at_word_chars [OF m w that(1)] that(2,3) by simp
  have lp: "lower ''p'' = ''p''" by code_simp
  have single: False if "?n = 1" "j = i" "?s ! i = CHR ''p''" for i
  proof -
    from match_at_single [OF m that(1)] that(2,3) have "lower word = lower ''p''" by simp
    with p lp show False by simp
  qed
  note nth = paragraph_nth [where t = t]
  have j3: "3 \<le> j"
  proof (rule ccontr)
    assume "\<not> 3 \<le> j"
    then consider "j = 0" | "j = 1" | "j = 2" by arith
    then show False
    proof cases
      case 1
      then have "j + 0 = 0" by simp
      from W [OF n this nth(1)] show False by (simp add: is_word_markup)
    next
      case 2
      show False
      proof (cases "?n = 1")
        case True
        from single [OF True 2 nth(2)] show False .
      next
        case False
        with n have one: "1 < ?n" by arith
        from 2 have "j + 1 = 2" by simp
        from W [OF one this nth(3)] show False by (simp add: is_word_markup)
      qed
    next
      case 3
      then have "j + 0 = 2" by simp
      from W [OF n this nth(3)] show False by (simp add: is_word_markup)
    qed
  qed
  have "j + ?n \<le> 3 + length t"
  proof (rule ccontr)
    assume "\<not> j + ?n \<le> 3 + length t"
    then have over: "3 + length t < j + ?n" by arith
    consider "j \<le> 3 + length t" | "j = 4 + length t" | "j = 5 + length t" | "j = 6 + length t"
      using le n by arith
    then show False
    proof cases
      case 1
      with over have k: "3 + length t - j < ?n" by arith
      from 1 have "j + (3 + length t - j) = 3 + length t" by arith
      from W [OF k this nth(5)] show False by (simp add: is_word_markup)
    next
      case 2
      then have "j + 0 = 4 + length t" by simp
      from W [OF n this nth(6)] show False by (simp add: is_word_markup)
    next
      case 3
      show False
      proof (cases "?n = 1")
        case True
        from single [OF True 3 nth(7)] show False .
      next
        case False
        with n have one: "1 < ?n" by arith
        from 3 have "j + 1 = 6 + length t" by arith
        from W [OF one this nth(8)] show False by (simp add: is_word_markup)
      qed
    next
      case 4
      then have "j + 0 = 6 + length t" by simp
      from W [OF n this nth(8)] show False by (simp add: is_word_markup)
    qed
  qed
  with j3 show ?thesis by simp
qed

lemma word_at_mid:
  assumes "k \<le> length t" "b \<noteq> []" "\<not> is_word (hd b)"
  shows "word_at (a @ t @ b) (length a + k) = word_at t k"
proof (cases "k < length t")
  case True
  then show ?thesis by (simp add: word_at_def nth_append)
next
  case False
  with assms have "k = length t" by simp
  with assms show ?thesis by (simp add: word_at_def nth_append hd_conv_nth)
qed

lemma word_boundary_mid:
  assumes "k \<le> length t" "b \<noteq> []" "\<not> is_word (hd b)" "a \<noteq> []" "\<not> is_word (last a)"
  shows "word_boundary (a @ t @ b) (length a + k) = word_boundary t k"
proof (cases k)
  case 0
  have "\<not> word_at (a @ t @ b) (length a - 1)"
    using assms(4,5) by (simp add: word_at_def nth_append last_conv_nth)
  moreover have "word_at (a @ t @ b) (length a + 0) = word_at t 0"
    using assms by (intro word_at_mid) simp_all
  ultimately show ?thesis using 0 by (simp add: word_boundary_def)
next
  case (Suc k')
  have "word_at (a @ t @ b) (length a + k') = word_at t k'"
    using assms Suc by (intro word_at_mid) simp_all
  moreover have "word_at (a @ t @ b) (length a + k) = word_at t k"
    using assms by (intro word_at_mid)
  ultimately show ?thesis using Suc by (simp add: word_boundary_def)
qed

lemma match_at_mid:
  assumes le: "j + length word \<le> length t"
    and ab: "b \<noteq> []" "\<not> is_word (hd b)" "a \<noteq> []" "\<not> is_word (last a)"
  shows "match_at word (a @ t @ b) (length a + j) = match_at word t j"
proof -
  have b1: "word_boundary (a @ t @ b) (length a + j) = word_boundary t j"
    using le ab by (intro word_boundary_mid) simp_all
  have "word_boundary (a @ t @ b) (length a + (j + length word)) = word_boundary t (j + length word)"
    using le ab by (intro word_boundary_mid)
  then have b2: "word_boundary (a @ t @ b) (length a + j + length word) = word_boundary t (j + length word)"
    by (simp add: add.assoc)
  have tk: "take (length word) (drop (length a + j) (a @ t @ b)) = take (length word) (drop j t)"
    using le by simp
  show ?thesis
    unfolding match_at_def b1 b2 tk using le by simp
qed

lemma pattern_search_paragraph:
  assumes occurs: "match_at word t i"
    and ne: "word \<noteq> []"
    and w: "\<forall>c\<in>set word. is_word c"
    and p: "lower word \<noteq> ''p''"
  shows "\<exists>j. pattern_search word (''<p>'' @ t @ ''</p>'') = Some (length ''<p>'' + j)
             \<and> match_at word t j"
proof -
  let ?a = "''<p>''" and ?b = "''</p>''"
  let ?s = "?a @ t @ ?b"
  have ab: "?b \<noteq> []" "\<not> is_word (hd ?b)" "?a \<noteq> []" "\<not> is_word (last ?a)"
    by (simp_all add: is_word_markup)
  from occurs have le: "i + length word \<le> length t" by (simp add: match_at_def)
  have "match_at word ?s (length ?a + i)"
    using match_at_mid [OF le ab] occurs by blast
  moreover have "length ?a + i < Suc (length ?s)" using le by simp
  then have "length ?a + i \<in> set [0 ..< Suc (length ?s)]"
    by (simp only: set_upt atLeastLessThan_iff) simp
  ultimately obtain j' where f: "pattern_search word ?s = Some j'"
    unfolding pattern_search_def
    using find_first [of "length ?a + i" "[0 ..< Suc (length ?s)]" "match_at word ?s"] by blast
  then have m: "match_at word ?s j'" by (simp add: pattern_search_Some)
  from match_in_paragraph_text [OF m ne w p]
  have "3 \<le> j'" "j' + length word \<le> 3 + length t" by simp_all
  then obtain j where j: "j' = length ?a + j" "j + length word \<le> length t"
    using le_Suc_ex [of 3 j'] by auto
  from match_at_mid [OF j(2) ab] m j(1) have "match_at word t j" by blast
  with f j show ?thesis by blast
qed

lemma pattern_sub1_paragraph:
  assumes occurs: "match_at word t i"
    and ne: "word \<noteq> []"
    and w: "\<forall>c\<in>set word. is_word c"
    and p: "lower word \<noteq> ''p''"
    and plain: "CHR ''<'' \<notin> set t"
  shows "\<exists>t1 m t2. t = t1 @ m @ t2 \<and> lower m = lower word \<and> (\<forall>c\<in>set m. is_word c) \<and> m \<noteq> []
           \<and> pattern_sub1 word link_url (''<p>'' @ t @ ''</p>'')
               = ''<p>'' @ t1 @ link_markup link_url m @ t2 @ ''</p>''"
proof -
  let ?a = "''<p>''" and ?b = "''</p>''"
  let ?s = "?a @ t @ ?b"
  let ?n = "length word"
  from pattern_search_paragraph [OF occurs ne w p] obtain j where
    f: "pattern_search word ?s = Some (length ?a + j)" and m: "match_at word t j" by blast
  from m have le: "j + ?n \<le> length t" by (simp add: match_at_def)
  let ?t1 = "take j t" and ?m = "take ?n (drop j t)" and ?t2 = "drop (j + ?n) t"
  have split: "t = ?t1 @ ?m @ ?t2" by (rule match_at_split(1) [OF m])
  have lm: "lower ?m = lower word" by (rule match_at_split(2) [OF m])
  have len: "length ?m = ?n" using le by simp
  have chars: "\<forall>c\<in>set ?m. is_word c"
  proof
    fix c assume "c \<in> set ?m"
    then obtain k where k: "k < length ?m" "c = ?m ! k" by (metis in_set_conv_nth)
    with len have "k < ?n" by simp
    from match_at_word_chars [OF m w this] k le show "is_word c" by simp
  qed
  have mne: "?m \<noteq> []" using len ne by auto
  have e1: "take (length ?a + j) ?s = ?a @ ?t1" 
    using le take_append [of "length ?a + j" ?a "t @ ?b"] by simp
  have e2: "take ?n (drop (length ?a + j) ?s) = ?m"
    using le drop_append [of "length ?a + j" ?a "t @ ?b"] by simp
  have e3: "drop (length ?a + j + ?n) ?s = ?t2 @ ?b"
    using le drop_append [of "length ?a + j + ?n" ?a "t @ ?b"] by (simp add: add.assoc)
  have "CHR ''<'' \<notin> set ?t1" using plain by (meson in_set_takeD)
  then have o: "open_a (take (length ?a + j) ?s) = 0"
    unfolding e1 by (rule open_a_plain)
  have "pattern_sub1 word link_url ?s
         = take (length ?a + j) ?s @ link_markup link_url (take ?n (drop (length ?a + j) ?s))
            @ drop (length ?a + j + ?n) ?s"
    unfolding pattern_sub1_def replace_def f using o by (simp add: Let_def)
  then have "pattern_sub1 word link_url ?s = ?a @ ?t1 @ link_markup link_url ?m @ ?t2 @ ?b"
    unfolding e1 e2 e3 by simp
  with split lm chars mne show ?thesis by blast
qed

lemma str_replace1_at:
  "str_find old (a @ old @ b) = Some (length a)
   \<Longrightarrow> str_replace1 (a @ old @ b) old new = a @ new @ b"
  by (simp add: str_replace1_def)

lemma str_find_after_heading:
  "str_find (''<p>'' @ y) (''<h2>Product Description</h2>'' @ ''<p>'' @ y)
     = Some (length ''<h2>Product Description</h2>'')"
  by simp

lemma str_replace1_described:
  "str_replace1 (described x) (''<p>'' @ x @ ''</p>'') (''<p>'' @ y @ ''</p>'') = described y"
proof -
  let ?h = "''<h2>Product Description</h2>''"
  have "str_find (''<p>'' @ x @ ''</p>'') (?h @ (''<p>'' @ x @ ''</p>'') @ []) = Some (length ?h)"
    using str_find_after_heading [of "x @ ''</p>''"] by simp
  from str_replace1_at [OF this, of "''<p>'' @ y @ ''</p>''"]
  show ?thesis by (simp add: described_def)
qed

lemma lower_append: "lower (xs @ ys) = lower xs @ lower ys"
  by (simp add: lower_def)

lemma link_markup_longer: "link_markup link_url m \<noteq> m"
proof
  assume "link_markup link_url m = m"
  then have "length (link_markup link_url m) = length m" by simp
  then show False by (simp add: link_markup_def)
qed

lemma link_markup_contains: "sublist link_url (a @ link_markup link_url m @ b)"
proof -
  have "a @ link_markup link_url m @ b
      = (a @ ''<a href='' @ [CHR 0x22]) @ link_url @ ([CHR 0x22] @ ''>'' @ m @ ''</a>'' @ b)"
    by (simp add: link_markup_def)
  then show ?thesis unfolding sublist_def by blast
qed

lemma plain_paragraph_linked:
  assumes plain: "\<forall>c\<in>set t. c \<noteq> CHR ''<'' \<and> c \<noteq> CHR ''>'' \<and> c \<noteq> CHR ''&''"
    and ne: "word \<noteq> []"
    and w: "\<forall>c\<in>set word. is_word c"
    and p: "lower word \<noteq> ''p''"
    and occurs: "match_at word t i"
  shows "\<not> check_already_linked (described t) word link_url"
    and "\<exists>t1 m t2. t = t1 @ m @ t2 \<and> lower m = lower word \<and> (\<forall>c\<in>set m. is_word c) \<and> m \<noteq> []
           \<and> add_link_to_word (described t) word link_url
               = described (t1 @ link_markup link_url m @ t2)"
proof -
  from plain have lt: "CHR ''<'' \<notin> set t" by auto
  from occurs have le: "i + length word \<le> length t" by (simp add: match_at_def)
  have "t ! i \<in> set t" using le ne by (cases word) auto
  moreover have "is_word (t ! i)"
    using match_at_word_chars [OF occurs w, of 0] ne by simp
  ultimately have tn: "text_nodes t = [NavigableString t]" by (rule text_nodes_word)
  let ?p = "Tag ''p'' [] [NavigableString t]"
  have soup: "BeautifulSoup (described t)
     = [Tag ''h2'' [] [NavigableString ''Product Description''], ?p]"
    using soup_plain [OF lt] tn by simp
  have regions: "scoped_paragraphs (described t) = [?p]" "checked_paragraphs (described t) = [?p]"
    by (rule heading_and_paragraph [OF soup]; simp add: find_all_simps)+
  have nolinks: "\<not> is_linked ?p word link_url"
    by (simp add: is_linked_def find_links_def find_all_simps)
  show "\<not> check_already_linked (described t) word link_url"
    unfolding check_already_linked_iff regions using nolinks by simp
  have strp: "str ?p = ''<p>'' @ t @ ''</p>''"
    using substitute_xml_plain [OF plain] by simp
  have "sublist (lower word) (lower t)"
  proof -
    have "lower t = lower (take i t) @ lower word @ lower (drop (i + length word) t)"
      using match_at_split [OF occurs] by (metis lower_append)
    then show ?thesis unfolding sublist_def by blast
  qed
  then have intext: "str_in (lower word) (lower (get_text ?p))"
    by (simp add: str_in_sublist)
  from pattern_sub1_paragraph [OF occurs ne w p lt, of link_url] obtain t1 m t2 where
    tm: "t = t1 @ m @ t2" "lower m = lower word" "\<forall>c\<in>set m. is_word c" "m \<noteq> []"
    and sub: "pattern_sub1 word link_url (''<p>'' @ t @ ''</p>'')
               = ''<p>'' @ (t1 @ link_markup link_url m @ t2) @ ''</p>''"
    by auto
  have changed: "''<p>'' @ (t1 @ link_markup link_url m @ t2) @ ''</p>'' \<noteq> ''<p>'' @ t @ ''</p>''"
    using tm(1) link_markup_longer [of link_url m] by simp
  have has: "str_in link_url (''<p>'' @ (t1 @ link_markup link_url m @ t2) @ ''</p>'')"
    using link_markup_contains [of link_url "''<p>'' @ t1" m "t2 @ ''</p>''"]
    by (simp add: str_in_sublist)
  have "link_paragraphs [?p] (described t) word link_url
      = str_replace1 (described t) (''<p>'' @ t @ ''</p>'')
          (''<p>'' @ (t1 @ link_markup link_url m @ t2) @ ''</p>'')"
    using intext nolinks changed has
    by (simp only: link_paragraphs.simps Let_def strp sub if_True if_False simp_thms)
  then have "add_link_to_word (described t) word link_url
      = described (t1 @ link_markup link_url m @ t2)"
    unfolding add_link_to_word_scoped regions by (simp only: str_replace1_described)
  with tm show "\<exists>t1 m t2. t = t1 @ m @ t2 \<and> lower m = lower word \<and> (\<forall>c\<in>set m. is_word c) \<and> m \<noteq> []
           \<and> add_link_to_word (described t) word link_url
               = described (t1 @ link_markup link_url m @ t2)"
    by blast
qed

lemma linked_paragraph_is_seen:
  assumes t1: "CHR ''<'' \<notin> set t1" and t2: "CHR ''<'' \<notin> set t2"
    and m: "\<forall>c\<in>set m. is_word c" "m \<noteq> []" "lower m = lower word"
    and url: "CHR 0x22 \<notin> set link_url"
  shows "check_already_linked (described (t1 @ link_markup link_url m @ t2)) word link_url"
proof -
  let ?a = "Tag ''a'' [(''href'', link_url)] [NavigableString m]"
  let ?kids = "text_nodes t1 @ ?a # text_nodes t2"
  let ?p = "Tag ''p'' [] ?kids"
  let ?u = "described (t1 @ link_markup link_url m @ t2)"
  from m(1) have lm: "CHR ''<'' \<notin> set m" by (auto simp: is_word_markup)
  obtain c where "c \<in> set m" using m(2) by (cases m) auto
  with m(1) have tn: "text_nodes m = [NavigableString m]"
    by (intro text_nodes_word [of c]) auto
  have soup: "BeautifulSoup ?u
     = [Tag ''h2'' [] [NavigableString ''Product Description''], ?p]"
    using soup_described [OF t1 lm t2 url] tn by simp
  have regions: "checked_paragraphs ?u = [?p]"
    by (rule heading_and_paragraph(2) [OF soup];
        simp add: find_all_append find_all_text_nodes find_all_simps)
  have links: "find_links ?p = [?a]"
    by (simp add: find_links_def find_all_append find_all_text_nodes find_all_simps)
  have "is_linked ?p word link_url"
    unfolding is_linked_iff links using m(3) by simp
  then show ?thesis
    unfolding check_already_linked_iff regions by simp
qed

lemma described_inject: "described x = described y \<Longrightarrow> x = y"
  by (simp add: described_def)

section \<open>Running the pass twice\<close>




text \<open>
  The condition on the produced document holds for a whole family of documents: the
  heading followed by one paragraph of text without \<open><\<close>, \<open>>\<close> and \<open>&\<close>, a keyword of word
  characters other than the letter \<open>p\<close> that has a whole-word match in the text, and a link
  target without a double quote. The first run wraps one occurrence of the keyword, and
  the run on the produced document ends with \<open>already_linked\<close> and sends nothing. (The
  keyword \<open>p\<close> is left out because the pattern is applied to the markup of the paragraph,
  where it matches the name of the tag \<open><p>\<close>.)
\<close>

theorem plain_paragraph_idempotent:
  assumes plain: "\<forall>c\<in>set t. c \<noteq> CHR ''<'' \<and> c \<noteq> CHR ''>'' \<and> c \<noteq> CHR ''&''"
    and ne: "word \<noteq> []"
    and w: "\<forall>c\<in>set word. is_word c"
    and p: "lower word \<noteq> ''p''"
    and occurs: "match_at word t i"
    and url: "CHR 0x22 \<notin> set link_url"
    and fetch1: "get_product_description self product_url = (Some (described t), product_gid)"
    and fetch2: "get_product_description self' product_url
                   = (Some (add_link_to_word (described t) word link_url), product_gid)"
  shows "(\<exists>t1 m t2. t = t1 @ m @ t2 \<and> lower m = lower word
            \<and> add_link_to_word (described t) word link_url
                = described (t1 @ link_markup link_url m @ t2))
         \<and> fst (process_product self product_url [word] link_url)
             = Success 1 (product_gid \<noteq> [] \<and> shopify_token self \<noteq> []
                 \<and> update_product self product_gid (add_link_to_word (described t) word link_url))
         \<and> process_product self' product_url [word] link_url = (AlreadyLinked word, [])"
proof -
  let ?d = "described t"
  let ?u = "add_link_to_word (described t) word link_url"
  from plain_paragraph_linked [OF plain ne w p occurs, of link_url]
  obtain t1 m t2 where g1: "\<not> check_already_linked ?d word link_url"
    and tm: "t = t1 @ m @ t2" "lower m = lower word" "\<forall>c\<in>set m. is_word c" "m \<noteq> []"
    and u: "?u = described (t1 @ link_markup link_url m @ t2)"
    by blast
  have "t1 @ link_markup link_url m @ t2 \<noteq> t"
    using tm(1) link_markup_longer [of link_url m] by simp
  then have changed: "?u \<noteq> ?d" unfolding u using described_inject by blast
  have dne: "?d \<noteq> []" by (simp add: described_def)
  have une: "?u \<noteq> []" unfolding u by (simp add: described_def)
  have guard1: "List.find (\<lambda>x. check_already_linked ?d x link_url) [word] = None"
    using g1 by simp
  have pass: "add_links [word] link_url (?d, 0) = (?u, 1)"
    using changed by (simp add: Let_def)
  have one: "fst (process_product self product_url [word] link_url)
             = Success 1 (product_gid \<noteq> [] \<and> shopify_token self \<noteq> []
                 \<and> update_product self product_gid ?u)"
    using process_product_linked [OF fetch1 dne guard1 pass] by simp
  from plain tm(1) have "CHR ''<'' \<notin> set t1" "CHR ''<'' \<notin> set t2" by auto
  from linked_paragraph_is_seen [OF this tm(3,4,2) url]
  have g2: "check_already_linked ?u word link_url" unfolding u .
  then have guard2: "List.find (\<lambda>x. check_already_linked ?u x link_url) [word] = Some word"
    by simp
  have two: "process_product self' product_url [word] link_url = (AlreadyLinked word, [])"
    by (rule process_product_guard [OF fetch2 une guard2])
  from tm u one two show ?thesis by blast
qed

section \<open>A document without the heading\<close>

text \<open>
  Claim C2, as amended. The claim says that a document in which no heading matches the
  marker ends with the outcome \<open>error\<close>. The code has no such error: without a
  \<open>Product Description\<close> heading the check finds nothing, \<open>add_link_to_word\<close> returns the
  document unchanged for every keyword, and \<open>process_product\<close> ends with \<open>no_match\<close>, without
  a call of \<open>update_product\<close>. The only \<open>error\<close> outcome is that of an empty or missing
  description.
\<close>

theorem no_heading_is_no_match:
  assumes fetch: "get_product_description self product_url = (Some description, product_gid)"
    and nonempty: "description \<noteq> []"
    and no_h2: "find_h2 (BeautifulSoup description) = None"
  shows "process_product self product_url words link_url = (NoMatch, [])"
proof -
  have "List.find (\<lambda>word. check_already_linked description word link_url) words = None"
    by (rule find_None) (simp add: check_already_linked_no_h2 [OF no_h2])
  moreover have "add_links words link_url (description, 0) = (description, 0)"
    by (rule add_links_no_h2 [OF no_h2])
  ultimately show ?thesis
    using fetch nonempty by (simp add: process_product_def)
qed

lemma no_h2_shipping: "find_h2 (BeautifulSoup ''<h2>Shipping</h2><p>Sapphire</p>'') = None"
  by code_simp

theorem no_heading_is_no_match_witness:
  "process_product (shop_with ''<h2>Shipping</h2><p>Sapphire</p>'' None)
     ''/products/ring'' [''Sapphire''] ''/collections/sapphire'' = (NoMatch, [])"
  using no_heading_is_no_match
    [where self = "shop_with ''<h2>Shipping</h2><p>Sapphire</p>'' None"
       and description = "''<h2>Shipping</h2><p>Sapphire</p>''"
       and product_gid = "''gid://shopify/Product/1''", OF _ _ no_h2_shipping]
  by (simp add: shop_with_def)

text \<open>A description with an \<open>h3\<close> heading and a paragraph: no \<open>h2\<close> matches, and the outcome
  is \<open>no_match\<close>.\<close>

theorem no_heading_counterexample:
  "find_h2 (BeautifulSoup ''<h3>Details</h3><p>Sapphire ring</p>'') = None
   \<and> process_product (shop_with ''<h3>Details</h3><p>Sapphire ring</p>'' None)
         ''/products/ring'' [''Sapphire''] ''/collections/sapphire'' = (NoMatch, [])"
  by code_simp

section \<open>Several keywords in one pass\<close>



section \<open>A failed update\<close>

text \<open>
  Claim C4, as amended. The claim says that a failed \<open>update_product\<close> turns the outcome
  of the document into \<open>error\<close>. The code keeps the status \<open>success\<close> and records the
  failure in the field \<open>updated\<close> only; the loop of \<open>start_processing\<close> reads the status
  alone. What holds: when the pass links a keyword and \<open>update_product\<close> fails, the result
  is \<open>success\<close> with \<open>updated = False\<close>, the one call of \<open>update_product\<close> is made, the run
  counts the document under \<open>success\<close>, and goes on with the remaining products.
\<close>

theorem failed_update_is_counted_as_success:
  assumes fetch: "get_product_description self product_url = (Some description, product_gid)"
    and nonempty: "description \<noteq> []"
    and guard: "List.find (\<lambda>word. check_already_linked description word link_url) words = None"
    and pass: "add_links words link_url (description, 0) = (updated_html, linked_count)"
    and linked: "0 < linked_count"
    and cred: "product_gid \<noteq> []" "shopify_token self \<noteq> []"
    and failed: "\<not> update_product self product_gid updated_html"
  shows "process_product self product_url words link_url
           = (Success linked_count False, [(product_gid, updated_html)])
         \<and> process self (product_url # products) words link_url r
           = process self products words link_url (r\<lparr>success := success r + 1\<rparr>)"
proof -
  have "process_product self product_url words link_url
           = (Success linked_count False, [(product_gid, updated_html)])"
    using assms by (simp add: process_product_def)
  then show ?thesis by simp
qed

theorem failed_update_is_counted_as_success_witness:
  "\<not> update_product
       (shop_with ''<h2>Product Description</h2><p>Ruby ring</p>''
          (Some \<lparr>status_code = 500, has_errors = False, userErrors = 0\<rparr>))
       ''gid://shopify/Product/1''
       ''<h2>Product Description</h2><p><a href=\"/c/ruby\">Ruby</a> ring</p>''
   \<and> process
       (shop_with ''<h2>Product Description</h2><p>Ruby ring</p>''
          (Some \<lparr>status_code = 500, has_errors = False, userErrors = 0\<rparr>))
       [''/products/ring''] [''Ruby''] ''/c/ruby''
       \<lparr>success = 0, already_linked = 0, no_match = 0, error = 0\<rparr>
     = \<lparr>success = 1, already_linked = 0, no_match = 0, error = 0\<rparr>"
proof -
  let ?d = "''<h2>Product Description</h2><p>Ruby ring</p>''"
  let ?u = "''<h2>Product Description</h2><p><a href=\"/c/ruby\">Ruby</a> ring</p>''"
  let ?self = "shop_with ?d (Some \<lparr>status_code = 500, has_errors = False, userErrors = 0\<rparr>)"
  let ?zero = "\<lparr>success = 0, already_linked = 0, no_match = 0, error = 0\<rparr>"
  have fetch: "get_product_description ?self ''/products/ring'' = (Some ?d, ''gid://shopify/Product/1'')"
    by (simp add: shop_with_def)
  have ne: "?d \<noteq> []" by simp
  have guard: "List.find (\<lambda>word. check_already_linked ?d word ''/c/ruby'') [''Ruby''] = None"
    by code_simp
  have pass: "add_links [''Ruby''] ''/c/ruby'' (?d, 0) = (?u, 1)" by code_simp
  have cred: "''gid://shopify/Product/1'' \<noteq> []" "shopify_token ?self \<noteq> []"
    by (simp_all add: shop_with_def)
  have failed: "\<not> update_product ?self ''gid://shopify/Product/1'' ?u"
    by (simp add: update_product_def shop_with_def)
  from failed_update_is_counted_as_success
    [OF fetch ne guard pass _ cred failed, of "[]" ?zero]
  have "process ?self [''/products/ring''] [''Ruby''] ''/c/ruby'' ?zero
          = \<lparr>success = 1, already_linked = 0, no_match = 0, error = 0\<rparr>"
    by simp
  with failed show ?thesis by simp
qed

text \<open>A shop whose request raises: the document counts as a success, and the error counter
  stays 0.\<close>

theorem failed_update_counterexample:
  "process_product (shop_with ''<h2>Product Description</h2><p>Blue Sapphire</p>'' None)
     ''/products/ring'' [''Sapphire''] ''/c/sapphire''
     = (Success 1 False,
        [(''gid://shopify/Product/1'',
          ''<h2>Product Description</h2><p>Blue <a href=\"/c/sapphire\">Sapphire</a></p>'')])
   \<and> process (shop_with ''<h2>Product Description</h2><p>Blue Sapphire</p>'' None)
       [''/products/ring''] [''Sapphire''] ''/c/sapphire''
       \<lparr>success = 0, already_linked = 0, no_match = 0, error = 0\<rparr>
     = \<lparr>success = 1, already_linked = 0, no_match = 0, error = 0\<rparr>"
  by code_simp

section \<open>The link outside the scoped block\<close>

text \<open>
  Claim C5. The claim says that nothing outside the scoped block changes and that an
  occurrence outside it is never the one linked. \<open>add_link_to_word\<close> writes the new
  paragraph back with \<open>html.replace(p_html, new_p_html, 1)\<close>, which replaces the first
  piece of the document that reads like the paragraph. Here the same paragraph stands
  before the heading as well: the scoped block is the paragraph after the heading (the
  heading starts at position 15), and the link lands in the paragraph before it. On the
  document so produced the check finds no link after the heading, and a second call links
  the paragraph of the scoped block as well.
\<close>

theorem link_lands_outside_scope:
  "scoped_paragraphs ''<p>Sapphire</p><h2>Product Description</h2><p>Sapphire</p>''
     = [Tag ''p'' [] [NavigableString ''Sapphire'']]
   \<and> str_find ''<h2>'' ''<p>Sapphire</p><h2>Product Description</h2><p>Sapphire</p>'' = Some 15
   \<and> add_link_to_word ''<p>Sapphire</p><h2>Product Description</h2><p>Sapphire</p>''
         ''Sapphire'' ''U''
     = ''<p><a href=\"U\">Sapphire</a></p><h2>Product Description</h2><p>Sapphire</p>''
   \<and> \<not> check_already_linked
         ''<p><a href=\"U\">Sapphire</a></p><h2>Product Description</h2><p>Sapphire</p>''
         ''Sapphire'' ''U''
   \<and> add_link_to_word
         ''<p><a href=\"U\">Sapphire</a></p><h2>Product Description</h2><p>Sapphire</p>''
         ''Sapphire'' ''U''
     = ''<p><a href=\"U\">Sapphire</a></p><h2>Product Description</h2><p><a href=\"U\">Sapphire</a></p>''"
  by code_simp

section \<open>A match inside an anchor\<close>




section \<open>The check for an existing link\<close>

text \<open>
  Claim C7, as amended. The claim says that the check is true exactly when an anchor of
  the scoped block has an \<open>href\<close> equal to the link target. The code tests
  \<open>link_url in link.get('href', '')\<close>: the \<open>href\<close> has to contain the link target. What
  holds: the check is true whenever an anchor with an \<open>href\<close> in a paragraph of the scoped
  block has an \<open>href\<close> that contains the link target and a text that contains the keyword,
  the text and the keyword compared in lower case; it is true only if a paragraph after
  the heading holds such an anchor; and when it is true for some keyword of the list,
  \<open>process_product\<close> ends with \<open>already_linked\<close> for the first such keyword in list order,
  before any insertion, with no call of \<open>update_product\<close>.
\<close>

theorem already_linked_check:
  "(p \<in> set (scoped_paragraphs description) \<and> link \<in> set (find_links p)
      \<and> sublist link_url (get_href link) \<and> sublist (lower word) (lower (get_text link))
    \<longrightarrow> check_already_linked description word link_url)
   \<and> (check_already_linked description word link_url
    \<longrightarrow> (\<exists>p\<in>set (checked_paragraphs description). \<exists>link\<in>set (find_links p).
           sublist link_url (get_href link) \<and> sublist (lower word) (lower (get_text link))))
   \<and> (get_product_description self product_url = (Some description, product_gid)
      \<and> description \<noteq> [] \<and> w \<in> set words \<and> check_already_linked description w link_url
    \<longrightarrow> (\<exists>w'. List.find (\<lambda>x. check_already_linked description x link_url) words = Some w'
           \<and> process_product self product_url words link_url = (AlreadyLinked w', [])))"
proof (intro conjI impI)
  assume "p \<in> set (scoped_paragraphs description) \<and> link \<in> set (find_links p)
      \<and> sublist link_url (get_href link) \<and> sublist (lower word) (lower (get_text link))"
  then have "p \<in> set (checked_paragraphs description)" and "is_linked p word link_url"
    using scoped_subset_checked by (auto simp: is_linked_iff)
  then show "check_already_linked description word link_url"
    unfolding check_already_linked_iff by blast
next
  assume "check_already_linked description word link_url"
  then show "\<exists>p\<in>set (checked_paragraphs description). \<exists>link\<in>set (find_links p).
           sublist link_url (get_href link) \<and> sublist (lower word) (lower (get_text link))"
    by (simp add: check_already_linked_iff is_linked_iff)
next
  assume a: "get_product_description self product_url = (Some description, product_gid)
      \<and> description \<noteq> [] \<and> w \<in> set words \<and> check_already_linked description w link_url"
  then obtain w' where
    f: "List.find (\<lambda>x. check_already_linked description x link_url) words = Some w'"
    using find_first [of w words "\<lambda>x. check_already_linked description x link_url"] by blast
  with a have "process_product self product_url words link_url = (AlreadyLinked w', [])"
    using process_product_guard [of self product_url description product_gid link_url words w']
    by blast
  with f show "\<exists>w'. List.find (\<lambda>x. check_already_linked description x link_url) words = Some w'
           \<and> process_product self product_url words link_url = (AlreadyLinked w', [])"
    by blast
qed

theorem already_linked_check_witness:
  "check_already_linked
     ''<h2>Product Description</h2><p>See <a href=\"/collections/sapphire?ref=1\">Blue Sapphire</a></p>''
     ''sapphire'' ''/collections/sapphire''
   \<and> process_product
       (shop_with ''<h2>Product Description</h2><p>See <a href=\"/collections/sapphire?ref=1\">Blue Sapphire</a></p>'' None)
       ''/products/ring'' [''Ruby'', ''sapphire''] ''/collections/sapphire''
     = (AlreadyLinked ''sapphire'', [])"
proof -
  let ?d = "''<h2>Product Description</h2><p>See <a href=\"/collections/sapphire?ref=1\">Blue Sapphire</a></p>''"
  let ?a = "Tag ''a'' [(''href'', ''/collections/sapphire?ref=1'')] [NavigableString ''Blue Sapphire'']"
  let ?p = "Tag ''p'' [] [NavigableString ''See '', ?a]"
  let ?self = "shop_with ?d None"
  note inst = already_linked_check [where description = ?d and p = ?p and link = ?a
      and link_url = "''/collections/sapphire''" and word = "''sapphire''" and w = "''sapphire''"
      and words = "[''Ruby'', ''sapphire'']" and self = ?self
      and product_url = "''/products/ring''" and product_gid = "''gid://shopify/Product/1''"]
  have sc: "scoped_paragraphs ?d = [?p]" by code_simp
  have fl: "find_links ?p = [?a]" by code_simp
  have s1: "sublist ''/collections/sapphire'' (get_href ?a)" by code_simp
  have s2: "sublist (lower ''sapphire'') (lower (get_text ?a))" by code_simp
  have g: "check_already_linked ?d ''sapphire'' ''/collections/sapphire''"
    using inst sc fl s1 s2 by simp
  have r: "\<not> check_already_linked ?d ''Ruby'' ''/collections/sapphire''" by code_simp
  have fetch: "get_product_description ?self ''/products/ring'' = (Some ?d, ''gid://shopify/Product/1'')"
    by (simp add: shop_with_def)
  have "\<exists>w'. List.find (\<lambda>x. check_already_linked ?d x ''/collections/sapphire'') [''Ruby'', ''sapphire''] = Some w'
           \<and> process_product ?self ''/products/ring'' [''Ruby'', ''sapphire''] ''/collections/sapphire'' = (AlreadyLinked w', [])"
    using inst fetch g by simp
  then have "process_product ?self ''/products/ring'' [''Ruby'', ''sapphire''] ''/collections/sapphire''
       = (AlreadyLinked ''sapphire'', [])"
    using g r by auto
  with g show ?thesis by simp
qed

text \<open>The only anchor of the scoped block points to \<open>/collections/sapphire-rings\<close>; the
  check for the target \<open>/collections/sapphire\<close> is true.\<close>

theorem href_containment_counterexample:
  "check_already_linked
     ''<h2>Product Description</h2><p><a href=\"/collections/sapphire-rings\">Sapphire</a> ring</p>''
     ''Sapphire'' ''/collections/sapphire''
   \<and> map get_href (concat (map find_links (scoped_paragraphs
       ''<h2>Product Description</h2><p><a href=\"/collections/sapphire-rings\">Sapphire</a> ring</p>'')))
     = [''/collections/sapphire-rings'']"
  by code_simp

section \<open>Whole words\<close>

text \<open>
  Claim C8, as amended. The claim says that for every keyword a match is never next to an
  alphanumeric character. \<open>\b\<close> asks for a change between word and non-word characters,
  so the claim holds for the keywords that begin and end with a word character (a letter,
  a digit or an underscore): a match of such a keyword has no word character, and so no
  alphanumeric character, directly before or after it. In particular \<open>ring\<close> matches
  nowhere in \<open>earring\<close> or \<open>rings\<close>.
\<close>

theorem whole_word_match:
  assumes m: "match_at word s i"
    and ne: "word \<noteq> []"
    and first: "is_word (hd word)"
    and final: "is_word (last word)"
  shows "(i = 0 \<or> \<not> is_word (s ! (i - 1)))
         \<and> (i + length word = length s \<or> \<not> is_word (s ! (i + length word)))
         \<and> pattern_search ''ring'' ''earring'' = None
         \<and> pattern_search ''ring'' ''rings'' = None"
proof -
  have ring: "pattern_search ''ring'' ''earring'' = None" "pattern_search ''ring'' ''rings'' = None"
    by code_simp+
  let ?n = "length word"
  let ?m = "take ?n (drop i s)"
  from m have le: "i + ?n \<le> length s" and lw: "lower ?m = lower word"
    and b1: "word_boundary s i" and b2: "word_boundary s (i + ?n)"
    by (simp_all add: match_at_def)
  from ne have n0: "0 < ?n" by simp
  have lm: "length ?m = ?n" using le by simp
  have k0: "0 < length ?m" and k1: "?n - 1 < length ?m"
    using lm n0 by simp_all
  have "is_word (?m ! 0) = is_word (word ! 0)"
    by (rule lower_eq_nth [OF lw k0])
  moreover have "?m ! 0 = s ! i" using le n0 by simp
  ultimately have w1: "is_word (s ! i)"
    using first ne by (simp add: hd_conv_nth)
  have idx: "i + (?n - 1) = i + ?n - 1" using n0 by arith
  have "?m ! (?n - 1) = s ! (i + (?n - 1))" using le n0 by simp
  then have e2: "?m ! (?n - 1) = s ! (i + ?n - 1)" by (simp only: idx)
  have "is_word (?m ! (?n - 1)) = is_word (word ! (?n - 1))"
    by (rule lower_eq_nth [OF lw k1])
  then have "is_word (s ! (i + ?n - 1)) = is_word (last word)"
    using last_conv_nth [OF ne] by (simp only: e2)
  with final have w2: "is_word (s ! (i + ?n - 1))" by simp
  have lt1: "i < length s" and lt2: "i + ?n - 1 < length s" and pos: "0 < i + ?n"
    using le n0 by arith+
  have "word_at s i" using w1 lt1 by (simp add: word_at_def)
  with b1 have "\<not> (0 < i \<and> word_at s (i - 1))" by (simp add: word_boundary_def)
  then have left: "i = 0 \<or> \<not> is_word (s ! (i - 1))"
    using le by (auto simp: word_at_def)
  have "word_at s (i + ?n - 1)" using w2 lt2 by (simp add: word_at_def)
  with b2 pos have "\<not> word_at s (i + ?n)" by (simp add: word_boundary_def)
  then have right: "i + ?n = length s \<or> \<not> is_word (s ! (i + ?n))"
    using le by (auto simp: word_at_def)
  from left right ring show ?thesis by simp
qed

theorem whole_word_match_witness:
  "match_at ''ring'' ''a Ring.'' 2 \<and> \<not> is_word (''a Ring.'' ! 1) \<and> \<not> is_word (''a Ring.'' ! 6)"
proof -
  have m: "match_at ''ring'' ''a Ring.'' 2" by code_simp
  have "is_word (hd ''ring'')" "is_word (last ''ring'')" by code_simp+
  with whole_word_match [OF m] show ?thesis using m by simp
qed

text \<open>The keyword \<open>-ring\<close> begins with a character that is not a word character: it
  matches in \<open>ear-ring\<close>, directly after the letter \<open>r\<close>, and is wrapped there.\<close>

theorem hyphen_keyword_counterexample:
  "match_at ''-ring'' ''ear-ring'' 3 \<and> is_alnum (''ear-ring'' ! 2)
   \<and> pattern_sub1 ''-ring'' ''U'' ''ear-ring'' = ''ear<a href=\"U\">-ring</a>''"
  by code_simp

section \<open>One insertion for a keyword\<close>

text \<open>
  Claim C9. One call of \<open>add_link_to_word\<close> returns the document as it is, or the document
  with one anchor to the link target wrapped around one occurrence of the keyword (up to
  case) and nothing else changed; and when no paragraph of the scoped block has a
  candidate that \<open>replace\<close> accepts, it returns the document as it is.
\<close>

theorem add_link_to_word_single_insertion:
  "(add_link_to_word html word link_url = html
    \<or> (\<exists>pre m post. html = pre @ m @ post
         \<and> add_link_to_word html word link_url = pre @ link_markup link_url m @ post
         \<and> lower m = lower word))
   \<and> ((\<forall>p\<in>set (scoped_paragraphs html). pattern_sub1 word link_url (str p) = str p)
        \<longrightarrow> add_link_to_word html word link_url = html)"
  unfolding add_link_to_word_scoped
  using link_paragraphs_cases [of "scoped_paragraphs html" html word link_url]
    link_paragraphs_no_candidate [of "scoped_paragraphs html" word link_url html]
  by blast

theorem add_link_to_word_single_insertion_witness:
  "scoped_paragraphs ''<h2>Product Description</h2><p>gold earrings</p>''
     = [Tag ''p'' [] [NavigableString ''gold earrings'']]
   \<and> pattern_sub1 ''ring'' ''U'' ''<p>gold earrings</p>'' = ''<p>gold earrings</p>''
   \<and> add_link_to_word ''<h2>Product Description</h2><p>gold earrings</p>'' ''ring'' ''U''
       = ''<h2>Product Description</h2><p>gold earrings</p>''"
proof -
  let ?d = "''<h2>Product Description</h2><p>gold earrings</p>''"
  have sc: "scoped_paragraphs ?d = [Tag ''p'' [] [NavigableString ''gold earrings'']]"
    by code_simp
  have st: "str (Tag ''p'' [] [NavigableString ''gold earrings'']) = ''<p>gold earrings</p>''"
    by code_simp
  have ps: "pattern_sub1 ''ring'' ''U'' ''<p>gold earrings</p>'' = ''<p>gold earrings</p>''"
    by code_simp
  have "\<forall>p\<in>set (scoped_paragraphs ?d). pattern_sub1 ''ring'' ''U'' (str p) = str p"
    using sc st ps by simp
  with add_link_to_word_single_insertion [of ?d "''ring''" "''U''"]
  have "add_link_to_word ?d ''ring'' ''U'' = ?d" by blast
  with sc ps show ?thesis by simp
qed

text \<open>The keyword in two paragraphs of the scoped block: only the first is linked.\<close>

lemma add_link_to_word_first_paragraph_only:
  "add_link_to_word ''<h2>Product Description</h2><p>Ruby</p><p>Ruby</p>'' ''Ruby'' ''U''
     = ''<h2>Product Description</h2><p><a href=\"U\">Ruby</a></p><p>Ruby</p>''"
  by code_simp

section \<open>An empty description\<close>

text \<open>
  Claim C10. When the description fetched for a product is missing or empty,
  \<open>process_product\<close> returns the error \<open>No description\<close> whatever the keywords and the link
  target are, and makes no call of \<open>update_product\<close>; \<open>add_link_to_word\<close> returns an empty
  document as it is.
\<close>

theorem empty_description_is_error:
  assumes "fst (get_product_description self product_url) = None
           \<or> fst (get_product_description self product_url) = Some []"
  shows "process_product self product_url words link_url = (Error ''No description'', [])
         \<and> add_link_to_word [] word link_url = []"
proof -
  obtain d g where dg: "get_product_description self product_url = (d, g)"
    by (cases "get_product_description self product_url")
  with assms have "d = None \<or> d = Some []" by simp
  with dg have "process_product self product_url words link_url = (Error ''No description'', [])"
    by (auto simp: process_product_def)
  moreover have "add_link_to_word [] word link_url = []"
    by (simp add: add_link_to_word_def)
  ultimately show ?thesis by simp
qed

theorem empty_description_is_error_witness:
  "process_product
     \<lparr>shopify_token = ''token'', shopify_store = ''shop'',
      get_product_description = (\<lambda>url. (Some [], ''gid://shopify/Product/1'')),
      post = (\<lambda>shop gid html. None)\<rparr>
     ''https://rezagemcollection.ca/products/ring'' [''Sapphire''] ''/collections/sapphire''
   = (Error ''No description'', [])
   \<and> add_link_to_word [] ''Sapphire'' ''/collections/sapphire'' = []"
  using empty_description_is_error
    [where self = "\<lparr>shopify_token = ''token'', shopify_store = ''shop'',
         get_product_description = (\<lambda>url. (Some [], ''gid://shopify/Product/1'')),
         post = (\<lambda>shop gid html. None)\<rparr>"
       and product_url = "''https://rezagemcollection.ca/products/ring''"
       and words = "[''Sapphire'']" and link_url = "''/collections/sapphire''"
       and word = "''Sapphire''"]
  by simp

end
